theory Spec2Isabelle
  imports Main "HOL-Library.Word"
begin

unbundle bit_operations_syntax

section \<open>Data model of util.c\<close>

text \<open>
  The module runs on an ATmega128 (avr-gcc): \<open>char\<close> and \<open>unsigned char\<close> are
  8 bits wide, \<open>int\<close> and \<open>unsigned int\<close> are 16 bits wide. All of them are words, so that
  \<open>+\<close> wraps around; a signed comparison reads both sides with \<open>sint\<close>.
\<close>

type_synonym u8 = "8 word"
type_synonym u16 = "16 word"

text \<open>
  What the module does that can be seen from outside: a store to \<open>PORTE\<close> (the stepper
  motor's coils) and a call of \<open>wait_ms\<close>. The functions append these events to a log, in
  program order.
\<close>

datatype event = Write_PORTE u8 | Call_wait_ms u16

text \<open>
  The memory the module touches: the memory-mapped registers it names, the global
  interrupt flag that \<open>sei()\<close> sets, and its two variables with static storage,
  \<open>timer2_tick\<close> and \<open>old_value\<close> (the \<open>static\<close> local of \<open>read_shaft_encoder\<close>).
  \<open>PINC\<close> is the input register of port C; the pins are taken to hold still during one
  call, so that every read of \<open>PINC\<close> in a call gives the value held in the field.
\<close>

record hw =
  OCR2 :: u8
  TCCR2 :: u8
  TIMSK :: u8
  I_flag :: bool
  DDRC :: u8
  PORTC :: u8
  PINC :: u8
  DDRE :: u8
  PORTE :: u8
  timer2_tick :: u16
  old_value :: u8
  trace :: "event list"

text \<open>
  Static initialisation, done before \<open>main\<close>: \<open>timer2_tick\<close> has no initialiser and is
  zeroed, \<open>old_value\<close> is initialised to \<open>0b11000000\<close>.
\<close>

definition program_start :: "hw \<Rightarrow> hw" where
  "program_start s = s\<lparr>timer2_tick := 0, old_value := 0b11000000, trace := []\<rparr>"

section \<open>Timer 2 and the millisecond delay\<close>

definition timer2_start :: "u8 \<Rightarrow> hw \<Rightarrow> hw" where
  "timer2_start unit s =
     (let s = s\<lparr>timer2_tick := 0\<rparr>;
          s = (if unit = 0
               then (s\<lparr>TCCR2 := 0b00001011\<rparr>)\<lparr>TIMSK := TIMSK s OR 0b10000000\<rparr>
               else s);
          s = (if unit = 1
               then (s\<lparr>TCCR2 := 0b00001001\<rparr>)\<lparr>TIMSK := TIMSK s OR 0b10000000\<rparr>
               else s)
      in s\<lparr>I_flag := True\<rparr>)"

definition timer2_stop :: "hw \<Rightarrow> hw" where
  "timer2_stop s =
     (let s = s\<lparr>TIMSK := TIMSK s AND NOT 0b10000000\<rparr>
      in s\<lparr>TCCR2 := TCCR2 s AND 0b01111111\<rparr>)"

text \<open>The handler of the TIMER2_COMP interrupt.\<close>

definition TIMER2_COMP_vect :: "hw \<Rightarrow> hw" where
  "TIMER2_COMP_vect s = s\<lparr>timer2_tick := timer2_tick s + 1\<rparr>"

text \<open>
  The interrupt handler runs whenever the hardware takes the interrupt, also in the middle
  of \<open>wait_ms\<close>. \<open>timer2_tick\<close> is two bytes wide and the ATmega128 loads one byte at
  a time, with interrupts enabled and nothing in the source to hold them off: one evaluation
  of the busy-wait condition \<open>timer2_tick < time_val\<close> loads the low byte, then the high
  byte (the order of avr-gcc), and the handler can run in between. A schedule says when
  it does: its \<open>k\<close>-th entry \<open>(a, b, c)\<close> belongs to the \<open>k\<close>-th evaluation of the
  condition, with \<open>a\<close> runs of the handler before the low byte is loaded, \<open>b\<close> runs
  between the two loads, and \<open>c\<close> runs after the high byte is loaded, before the loop goes
  on or, when the loop ends, before \<open>timer2_stop\<close> disables the interrupt. Inside the
  handler interrupts are off, so its own \<open>timer2_tick++\<close> is one step. The timer 2
  interrupt is disabled after reset and after every return of \<open>wait_ms\<close>, so no run of
  the handler is placed before \<open>timer2_start\<close> has enabled it; the runs between that
  moment and the first evaluation are the \<open>a\<close> of the first entry.

  A function of the module either returns, or is still running when the observed schedule
  ends. \<open>Returns s rest\<close> gives the final memory and the part of the schedule not yet
  used; \<open>Blocked s\<close> gives the memory reached when the schedule ran out.
\<close>

type_synonym poll = "nat \<times> nat \<times> nat"

datatype outcome = Returns hw "poll list" | Blocked hw

fun final :: "outcome \<Rightarrow> hw" where
  "final (Returns s rest) = s"
| "final (Blocked s) = s"

fun returned :: "outcome \<Rightarrow> bool" where
  "returned (Returns s rest) = True"
| "returned (Blocked s) = False"

text \<open>
  The loop \<open>while(timer2_tick < time_val);\<close> of \<open>wait_ms\<close>. The value compared with
  \<open>time_val\<close> is put together from the low byte and the high byte as they were loaded.
\<close>

fun busy_wait :: "u16 \<Rightarrow> hw \<Rightarrow> poll list \<Rightarrow> outcome" where
  "busy_wait time_val s [] = Blocked s"
| "busy_wait time_val s ((a, b, c) # ps) =
     (let s = (TIMER2_COMP_vect ^^ a) s;
          low_byte = timer2_tick s AND 0x00FF;
          s = (TIMER2_COMP_vect ^^ b) s;
          high_byte = timer2_tick s AND 0xFF00;
          s = (TIMER2_COMP_vect ^^ c) s
      in if (high_byte OR low_byte) < time_val then busy_wait time_val s ps
         else Returns s ps)"

text \<open>
  \<open>wait_ms\<close>: the statements before the loop, \<open>wait_ms_entry\<close>, then the loop, then
  \<open>timer2_stop\<close>.
\<close>

definition wait_ms_entry :: "u16 \<Rightarrow> hw \<Rightarrow> hw" where
  "wait_ms_entry time_val s =
     (let s = s\<lparr>trace := trace s @ [Call_wait_ms time_val]\<rparr>;
          s = s\<lparr>OCR2 := 250\<rparr>;
          s = s\<lparr>timer2_tick := 0\<rparr>
      in timer2_start 0 s)"

definition wait_ms :: "u16 \<Rightarrow> hw \<Rightarrow> poll list \<Rightarrow> outcome" where
  "wait_ms time_val s sched =
     (case busy_wait time_val (wait_ms_entry time_val s) sched of
        Returns s rest \<Rightarrow> Returns (timer2_stop s) rest
      | Blocked s \<Rightarrow> Blocked s)"

section \<open>Push buttons and shaft encoder\<close>

definition init_push_buttons :: "hw \<Rightarrow> hw" where
  "init_push_buttons s =
     (let s = s\<lparr>DDRC := DDRC s AND 0xC0\<rparr>
      in s\<lparr>PORTC := PORTC s OR 0x3F\<rparr>)"

definition read_push_buttons :: "hw \<Rightarrow> u8 \<times> hw" where
  "read_push_buttons s =
     (if PINC s AND 0b00100000 = 0b00000000 then (6, s)
      else if PINC s AND 0b00010000 = 0b00000000 then (5, s)
      else if PINC s AND 0b00001000 = 0b00000000 then (4, s)
      else if PINC s AND 0b00000100 = 0b00000000 then (3, s)
      else if PINC s AND 0b00000010 = 0b00000000 then (2, s)
      else if PINC s AND 0b00000001 = 0b00000000 then (1, s)
      else (0, s))"

definition shaft_encoder_init :: "hw \<Rightarrow> hw" where
  "shaft_encoder_init s =
     (let s = s\<lparr>DDRC := DDRC s AND 0x3F\<rparr>
      in s\<lparr>PORTC := PORTC s OR 0xC0\<rparr>)"

definition read_shaft_encoder :: "hw \<Rightarrow> u8 \<times> hw" where
  "read_shaft_encoder s =
     (let new_value = PINC s AND 0b11000000;
          rotation = 0;
          rotation =
            (if old_value s = 0b11000000
             then (let rotation = (if new_value = 0b01000000 then 1 else rotation)
                   in if new_value = 0b10000000 then - 1 else rotation)
             else rotation);
          s = s\<lparr>old_value := new_value\<rparr>
      in (rotation, s))"

section \<open>Stepper motor\<close>

definition write_PORTE :: "u8 \<Rightarrow> hw \<Rightarrow> hw" where
  "write_PORTE v s = s\<lparr>PORTE := v, trace := trace s @ [Write_PORTE v]\<rparr>"

definition stepper_init :: "hw \<Rightarrow> poll list \<Rightarrow> outcome" where
  "stepper_init s sched =
     (let s = s\<lparr>DDRE := DDRE s OR 0xF0\<rparr>;
          s = write_PORTE (PORTE s AND 0x8F) s
      in case wait_ms 2 s sched of
           Returns s rest \<Rightarrow> Returns (write_PORTE (PORTE s AND 0x0F) s) rest
         | Blocked s \<Rightarrow> Blocked s)"

text \<open>The loop \<open>for(int i = 0; i < 5; i++)\<close> of the branch \<open>direction == 1\<close>.\<close>

function cw_for :: "nat \<Rightarrow> u8 \<Rightarrow> u8 \<Rightarrow> hw \<Rightarrow> u8 \<times> hw" where
  "cw_for i masked_porte turner s =
     (if i < 5 then
        (let s = write_PORTE (masked_porte OR turner) s;
             turner = push_bit 1 turner;
             turner = (if turner = 0b00000000 then 0b00010000 else turner)
         in cw_for (i + 1) masked_porte turner s)
      else (turner, s))"
  by pat_completeness auto
termination
  by (relation "measure (\<lambda>(i, masked_porte, turner, s). 5 - i)") auto

text \<open>The loop \<open>for(int i = 0; i < 5; i++)\<close> of the branch \<open>direction == -1\<close>.\<close>

function ccw_for :: "nat \<Rightarrow> u8 \<Rightarrow> u8 \<Rightarrow> hw \<Rightarrow> u8 \<times> hw" where
  "ccw_for i masked_porte turner s =
     (if i < 5 then
        (let s = write_PORTE (masked_porte OR turner) s;
             turner = drop_bit 1 turner;
             turner = (if turner = 0b00001000 then 0b10000000 else turner)
         in ccw_for (i + 1) masked_porte turner s)
      else (turner, s))"
  by pat_completeness auto
termination
  by (relation "measure (\<lambda>(i, masked_porte, turner, s). 5 - i)") auto

text \<open>
  Every evaluation of the busy-wait condition uses up one entry of the schedule, so a
  call of \<open>wait_ms\<close> that returns leaves a shorter schedule.
\<close>

lemma busy_wait_shorter:
  "busy_wait time_val s sched = Returns s' rest \<Longrightarrow> length rest < length sched"
  by (induction time_val s sched rule: busy_wait.induct)
     (fastforce simp: Let_def split: if_splits)+

lemma wait_ms_shorter:
  "wait_ms time_val s sched = Returns s' rest \<Longrightarrow> length rest < length sched"
  by (auto simp: wait_ms_def split: outcome.splits dest: busy_wait_shorter)

text \<open>
  The loop \<open>while (steps <= num_steps)\<close> of \<open>move_stepper_motor_by_step\<close>. \<open>steps\<close> and
  \<open>num_steps\<close> are 16-bit \<open>int\<close>s and the comparison is signed; \<open>steps++\<close> is the
  addition of the machine, which wraps from 32767 to -32768 (the C standard leaves that
  overflow undefined). The third argument is \<open>masked_porte\<close>, read once before the loop.
\<close>

function stepper_loop ::
  "u16 \<Rightarrow> u16 \<Rightarrow> u8 \<Rightarrow> u16 \<Rightarrow> u8 \<Rightarrow> hw \<Rightarrow> poll list \<Rightarrow> outcome" where
  "stepper_loop num_steps direction masked_porte steps turner s sched =
     (if sint steps \<le> sint num_steps then
        (let (steps, turner, s) =
               (if direction = 1 then
                  (let (turner, s) = cw_for 0 masked_porte turner s
                   in (steps + 1, turner, s))
                else if direction = - 1 then
                  (let (turner, s) = ccw_for 0 masked_porte turner s
                   in (steps + 1, turner, s))
                else (steps, turner, s))
         in case wait_ms 2 s sched of
              Returns s rest \<Rightarrow>
                stepper_loop num_steps direction masked_porte steps turner s rest
            | Blocked s \<Rightarrow> Blocked s)
      else Returns s sched)"
  by pat_completeness auto
termination
  by (relation "measure (\<lambda>(num_steps, direction, masked_porte, steps, turner, s, sched).
        length sched)")
     (auto dest: wait_ms_shorter)

definition move_stepper_motor_by_step ::
  "u16 \<Rightarrow> u16 \<Rightarrow> hw \<Rightarrow> poll list \<Rightarrow> outcome" where
  "move_stepper_motor_by_step num_steps direction s sched =
     (let steps = 0;
          turner = 0b00010000;
          masked_porte = PORTE s AND 0b00001111
      in stepper_loop num_steps direction masked_porte steps turner s sched)"

text \<open>A memory to run the functions on: the registers after reset, no button pressed.\<close>

definition power_on :: hw where
  "power_on = program_start
     \<lparr>OCR2 = 0, TCCR2 = 0, TIMSK = 0, I_flag = False, DDRC = 0, PORTC = 0, PINC = 0xFF,
      DDRE = 0, PORTE = 0, timer2_tick = 0, old_value = 0, trace = []\<rparr>"

declare cw_for.simps [simp del] ccw_for.simps [simp del] stepper_loop.simps [simp del]

section \<open>Notions used in the statements\<close>

text \<open>
  One turn of the body of a \<open>for\<close> loop takes the phase \<open>turner\<close> to the next one:
  \<open>cw_next\<close> in the branch \<open>direction == 1\<close>, \<open>ccw_next\<close> in the branch
  \<open>direction == -1\<close>. \<open>five_writes\<close> lists the values one run of a \<open>for\<close> loop stores
  to \<open>PORTE\<close>, and \<open>iteration\<close> is the log of one iteration of the \<open>while\<close> loop.
\<close>

definition cw_next :: "u8 \<Rightarrow> u8" where
  "cw_next turner = (let turner = push_bit 1 turner
                     in if turner = 0b00000000 then 0b00010000 else turner)"

definition ccw_next :: "u8 \<Rightarrow> u8" where
  "ccw_next turner = (let turner = drop_bit 1 turner
                      in if turner = 0b00001000 then 0b10000000 else turner)"

definition phases :: "u8 set" where
  "phases = {0b00010000, 0b00100000, 0b01000000, 0b10000000}"

definition five_writes :: "(u8 \<Rightarrow> u8) \<Rightarrow> u8 \<Rightarrow> u8 \<Rightarrow> u8 list" where
  "five_writes nxt masked_porte turner =
     [masked_porte OR turner, masked_porte OR nxt turner, masked_porte OR (nxt ^^ 2) turner,
      masked_porte OR (nxt ^^ 3) turner, masked_porte OR (nxt ^^ 4) turner]"

definition iteration :: "u8 list \<Rightarrow> event list" where
  "iteration vs = map Write_PORTE vs @ [Call_wait_ms 2]"

section \<open>Auxiliary lemmas\<close>

lemma irq_funpow:
  "(TIMER2_COMP_vect ^^ k) s = s\<lparr>timer2_tick := timer2_tick s + of_nat k\<rparr>"
  by (induction k) (simp_all add: TIMER2_COMP_vect_def add.assoc add.commute)

lemma and_one_bit_u8:
  "(x :: u8) AND 0b00000001 = 0 \<longleftrightarrow> \<not> bit x 0"
  "(x :: u8) AND 0b00000010 = 0 \<longleftrightarrow> \<not> bit x 1"
  "(x :: u8) AND 0b00000100 = 0 \<longleftrightarrow> \<not> bit x 2"
  "(x :: u8) AND 0b00001000 = 0 \<longleftrightarrow> \<not> bit x 3"
  "(x :: u8) AND 0b00010000 = 0 \<longleftrightarrow> \<not> bit x 4"
  "(x :: u8) AND 0b00100000 = 0 \<longleftrightarrow> \<not> bit x 5"
  using and_exp_eq_0_iff_not_bit [of x 0] and_exp_eq_0_iff_not_bit [of x 1]
    and_exp_eq_0_iff_not_bit [of x 2] and_exp_eq_0_iff_not_bit [of x 3]
    and_exp_eq_0_iff_not_bit [of x 4] and_exp_eq_0_iff_not_bit [of x 5]
  by simp_all

lemma clear_bit7_u8:
  "(x :: u8) AND NOT 0b10000000 = unset_bit 7 x"
  "(x :: u8) AND 0b01111111 = unset_bit 7 x"
  "(x :: u8) AND - 129 = unset_bit 7 x"
proof -
  have "(0b01111111 :: u8) = NOT 0b10000000" "(- 129 :: u8) = NOT 0b10000000" by simp_all
  moreover have "(0b10000000 :: u8) = push_bit 7 1" by simp
  ultimately show "x AND NOT 0b10000000 = unset_bit 7 x" "x AND 0b01111111 = unset_bit 7 x"
    "x AND - 129 = unset_bit 7 x"
    by (simp_all only: unset_bit_eq_and_not)
qed

lemma timer2_stop_bits:
  "bit (TIMSK (timer2_stop s)) n \<longleftrightarrow> bit (TIMSK s) n \<and> n \<noteq> 7"
  "bit (TCCR2 (timer2_stop s)) n \<longleftrightarrow> bit (TCCR2 s) n \<and> n \<noteq> 7"
  by (auto simp add: timer2_stop_def Let_def clear_bit7_u8 bit_unset_bit_iff)

lemma less_6_cases: "(\<forall>i<6. P (i::nat)) \<longleftrightarrow> P 0 \<and> P 1 \<and> P 2 \<and> P 3 \<and> P 4 \<and> P 5"
  (is "?L \<longleftrightarrow> ?R")
proof
  assume ?L
  then show ?R by simp
next
  assume r: ?R
  show ?L
  proof (intro allI impI)
    fix i :: nat
    assume "i < 6"
    then have "i = 0 \<or> i = 1 \<or> i = 2 \<or> i = 3 \<or> i = 4 \<or> i = 5" by arith
    with r show "P i" by auto
  qed
qed


lemma read_push_buttons_cases:
  "fst (read_push_buttons s) = 6 \<longleftrightarrow> \<not> bit (PINC s) 5"
  "fst (read_push_buttons s) = 5 \<longleftrightarrow> \<not> bit (PINC s) 4 \<and> bit (PINC s) 5"
  "fst (read_push_buttons s) = 4 \<longleftrightarrow> \<not> bit (PINC s) 3 \<and> bit (PINC s) 4 \<and> bit (PINC s) 5"
  "fst (read_push_buttons s) = 3 \<longleftrightarrow>
     \<not> bit (PINC s) 2 \<and> bit (PINC s) 3 \<and> bit (PINC s) 4 \<and> bit (PINC s) 5"
  "fst (read_push_buttons s) = 2 \<longleftrightarrow>
     \<not> bit (PINC s) 1 \<and> bit (PINC s) 2 \<and> bit (PINC s) 3 \<and> bit (PINC s) 4 \<and> bit (PINC s) 5"
  "fst (read_push_buttons s) = 1 \<longleftrightarrow>
     \<not> bit (PINC s) 0 \<and> bit (PINC s) 1 \<and> bit (PINC s) 2 \<and> bit (PINC s) 3 \<and> bit (PINC s) 4
     \<and> bit (PINC s) 5"
  "fst (read_push_buttons s) = 0 \<longleftrightarrow>
     bit (PINC s) 0 \<and> bit (PINC s) 1 \<and> bit (PINC s) 2 \<and> bit (PINC s) 3 \<and> bit (PINC s) 4
     \<and> bit (PINC s) 5"
  by (simp_all add: read_push_buttons_def and_one_bit_u8)

lemma from_to_6_cases:
  "(\<forall>j. k \<le> j \<and> j < 6 \<longrightarrow> P (j::nat)) \<longleftrightarrow>
     (k \<le> 0 \<longrightarrow> P 0) \<and> (k \<le> 1 \<longrightarrow> P 1) \<and> (k \<le> 2 \<longrightarrow> P 2) \<and> (k \<le> 3 \<longrightarrow> P 3)
     \<and> (k \<le> 4 \<longrightarrow> P 4) \<and> (k \<le> 5 \<longrightarrow> P 5)"
proof -
  have "(\<forall>j. k \<le> j \<and> j < 6 \<longrightarrow> P j) \<longleftrightarrow> (\<forall>j<6. k \<le> j \<longrightarrow> P j)" by auto
  then show ?thesis by (simp only: less_6_cases)
qed

lemma join_bytes_u16: "((x :: u16) AND 0xFF00) OR (x AND 0x00FF) = x"
proof -
  have "(x AND 0xFF00) OR (x AND 0x00FF) = x AND (0xFF00 OR 0x00FF)"
    by (simp only: bit.conj_disj_distrib)
  also have "(0xFF00 OR 0x00FF :: u16) = - 1" by simp
  finally show ?thesis by simp
qed

lemma busy_wait_Cons:
  "busy_wait time_val s ((a, b, c) # ps) =
     (if ((timer2_tick s + of_nat (a + b)) AND 0xFF00) OR ((timer2_tick s + of_nat a) AND 0x00FF)
           < time_val
      then busy_wait time_val (s\<lparr>timer2_tick := timer2_tick s + of_nat (a + b + c)\<rparr>) ps
      else Returns (s\<lparr>timer2_tick := timer2_tick s + of_nat (a + b + c)\<rparr>) ps)"
  by (simp add: busy_wait.simps irq_funpow Let_def add.assoc)

declare busy_wait.simps(2) [simp del]

lemma busy_wait_whole_read:
  "busy_wait time_val s ((a, 0, c) # ps) =
     (if timer2_tick s + of_nat a < time_val
      then busy_wait time_val (s\<lparr>timer2_tick := timer2_tick s + of_nat (a + c)\<rparr>) ps
      else Returns (s\<lparr>timer2_tick := timer2_tick s + of_nat (a + c)\<rparr>) ps)"
  by (simp only: busy_wait_Cons join_bytes_u16 add_0_right)

lemma wait_ms_entry_eq:
  "wait_ms_entry time_val s =
     s\<lparr>trace := trace s @ [Call_wait_ms time_val], OCR2 := 250, timer2_tick := 0,
       TCCR2 := 0b00001011, TIMSK := TIMSK s OR 0b10000000, I_flag := True\<rparr>"
  by (simp add: wait_ms_entry_def timer2_start_def)


lemma cw_for_step:
  "i < 5 \<Longrightarrow> cw_for i masked_porte turner s
     = cw_for (Suc i) masked_porte (cw_next turner) (write_PORTE (masked_porte OR turner) s)"
  "\<not> i < 5 \<Longrightarrow> cw_for i masked_porte turner s = (turner, s)"
  by (subst cw_for.simps, simp add: cw_next_def Let_def)+

lemma ccw_for_step:
  "i < 5 \<Longrightarrow> ccw_for i masked_porte turner s
     = ccw_for (Suc i) masked_porte (ccw_next turner) (write_PORTE (masked_porte OR turner) s)"
  "\<not> i < 5 \<Longrightarrow> ccw_for i masked_porte turner s = (turner, s)"
  by (subst ccw_for.simps, simp add: ccw_next_def Let_def)+

lemma cw_for_0:
  "cw_for 0 masked_porte turner s =
     ((cw_next ^^ 5) turner,
      s\<lparr>PORTE := masked_porte OR (cw_next ^^ 4) turner,
        trace := trace s @ map Write_PORTE (five_writes cw_next masked_porte turner)\<rparr>)"
  by (simp add: cw_for_step write_PORTE_def five_writes_def numeral_eq_Suc)

lemma ccw_for_0:
  "ccw_for 0 masked_porte turner s =
     ((ccw_next ^^ 5) turner,
      s\<lparr>PORTE := masked_porte OR (ccw_next ^^ 4) turner,
        trace := trace s @ map Write_PORTE (five_writes ccw_next masked_porte turner)\<rparr>)"
  by (simp add: ccw_for_step write_PORTE_def five_writes_def numeral_eq_Suc)

lemma next_phase:
  "turner \<in> phases \<Longrightarrow> cw_next turner \<in> phases"
  "turner \<in> phases \<Longrightarrow> ccw_next turner \<in> phases"
  by (auto simp: phases_def cw_next_def ccw_next_def)

lemma funpow_phase:
  "turner \<in> phases \<Longrightarrow> (cw_next ^^ k) turner \<in> phases"
  "turner \<in> phases \<Longrightarrow> (ccw_next ^^ k) turner \<in> phases"
  by (induction k) (simp_all add: next_phase)

lemma busy_wait_final:
  "\<exists>t. final (busy_wait time_val s sched) = s\<lparr>timer2_tick := t\<rparr>"
proof (induction sched arbitrary: s)
  case Nil
  have "s = s\<lparr>timer2_tick := timer2_tick s\<rparr>" by simp
  then have "final (busy_wait time_val s []) = s\<lparr>timer2_tick := timer2_tick s\<rparr>" by simp
  then show ?case ..
next
  case (Cons p ps)
  obtain a b c where p: "p = (a, b, c)" by (cases p)
  let ?s1 = "s\<lparr>timer2_tick := timer2_tick s + of_nat (a + b + c)\<rparr>"
  from Cons.IH [of ?s1] obtain t
    where t: "final (busy_wait time_val ?s1 ps) = ?s1\<lparr>timer2_tick := t\<rparr>" ..
  have "final (busy_wait time_val s (p # ps)) = s\<lparr>timer2_tick := t\<rparr>
      \<or> final (busy_wait time_val s (p # ps))
          = s\<lparr>timer2_tick := timer2_tick s + of_nat (a + b + c)\<rparr>"
    unfolding p busy_wait_Cons using t by simp
  then show ?case by blast
qed

lemma wait_ms_final:
  "\<exists>t. final (wait_ms time_val s sched) =
     (if returned (wait_ms time_val s sched)
      then timer2_stop ((wait_ms_entry time_val s)\<lparr>timer2_tick := t\<rparr>)
      else (wait_ms_entry time_val s)\<lparr>timer2_tick := t\<rparr>)"
proof -
  obtain t where "final (busy_wait time_val (wait_ms_entry time_val s) sched)
      = (wait_ms_entry time_val s)\<lparr>timer2_tick := t\<rparr>"
    using busy_wait_final by blast
  then have "final (wait_ms time_val s sched) =
     (if returned (wait_ms time_val s sched)
      then timer2_stop ((wait_ms_entry time_val s)\<lparr>timer2_tick := t\<rparr>)
      else (wait_ms_entry time_val s)\<lparr>timer2_tick := t\<rparr>)"
    by (cases "busy_wait time_val (wait_ms_entry time_val s) sched") (simp_all add: wait_ms_def)
  then show ?thesis ..
qed

lemma wait_ms_frame:
  "trace (final (wait_ms time_val s sched)) = trace s @ [Call_wait_ms time_val]"
  "PORTE (final (wait_ms time_val s sched)) = PORTE s"
  "DDRE (final (wait_ms time_val s sched)) = DDRE s"
  "PINC (final (wait_ms time_val s sched)) = PINC s"
  "PORTC (final (wait_ms time_val s sched)) = PORTC s"
  "DDRC (final (wait_ms time_val s sched)) = DDRC s"
  "old_value (final (wait_ms time_val s sched)) = old_value s"
  using wait_ms_final [of time_val s sched]
  by (auto simp: wait_ms_entry_eq timer2_stop_def split: if_splits)

lemma wait_ms_2_first_poll:
  "\<exists>s'. wait_ms 2 s ((2, 0, 0) # ks) = Returns s' ks"
  by (simp add: wait_ms_def wait_ms_entry_eq busy_wait_whole_read)

lemma stepper_loop_step:
  assumes "direction = 1 \<or> direction = - 1"
  defines "nxt \<equiv> (if direction = 1 then cw_next else ccw_next)"
  shows "stepper_loop num_steps direction masked_porte steps turner s sched =
     (if sint steps \<le> sint num_steps then
        (case wait_ms 2
                (s\<lparr>PORTE := masked_porte OR (nxt ^^ 4) turner,
                   trace := trace s @ map Write_PORTE (five_writes nxt masked_porte turner)\<rparr>)
                sched of
           Returns s' rest \<Rightarrow>
             stepper_loop num_steps direction masked_porte (steps + 1) ((nxt ^^ 5) turner) s' rest
         | Blocked s' \<Rightarrow> Blocked s')
      else Returns s sched)"
  using assms(1) unfolding nxt_def
  by (subst stepper_loop.simps) (auto simp: cw_for_0 ccw_for_0)

lemma stepper_loop_idle:
  assumes "direction \<noteq> 1" "direction \<noteq> - 1"
  shows "stepper_loop num_steps direction masked_porte steps turner s sched =
     (if sint steps \<le> sint num_steps then
        (case wait_ms 2 s sched of
           Returns s' rest \<Rightarrow>
             stepper_loop num_steps direction masked_porte steps turner s' rest
         | Blocked s' \<Rightarrow> Blocked s')
      else Returns s sched)"
  using assms
  by (subst stepper_loop.simps) auto


lemma sint_succ_u16: "sint (x :: u16) < 32767 \<Longrightarrow> sint (x + 1) = sint x + 1"
proof -
  assume less: "sint x < 32767"
  have ge: "- (2 ^ (LENGTH(16) - 1)) \<le> sint x" by (rule sint_ge)
  have "sint (x + 1) = signed_take_bit (LENGTH(16) - 1) (sint x + sint (1 :: u16))"
    by (rule sint_word_ariths)
  also have "\<dots> = signed_take_bit 15 (sint x + 1)" by simp
  also have "\<dots> = sint x + 1"
    using less ge by (intro signed_take_bit_int_eq_self) simp_all
  finally show ?thesis .
qed

lemma sint_le_max_u16: "sint (x :: u16) \<le> 32767"
  using sint_lt [of x] by simp

lemma five_writes_phases:
  assumes "turner \<in> phases" "nxt = cw_next \<or> nxt = ccw_next"
  shows "length (five_writes nxt masked_porte turner) = 5"
    and "\<forall>v\<in>set (five_writes nxt masked_porte turner). \<exists>t\<in>phases. v = masked_porte OR t"
proof -
  show "length (five_writes nxt masked_porte turner) = 5"
    by (simp add: five_writes_def)
  have "(nxt ^^ k) turner \<in> phases" for k
    using assms funpow_phase by blast
  from this [of 0] this [of 1] this [of 2] this [of 3] this [of 4]
  show "\<forall>v\<in>set (five_writes nxt masked_porte turner). \<exists>t\<in>phases. v = masked_porte OR t"
    by (auto simp: five_writes_def)
qed

lemma stepper_loop_trace:
  assumes "direction = 1 \<or> direction = - 1" and "turner \<in> phases"
  shows "\<exists>vss.
      trace (final (stepper_loop num_steps direction masked_porte steps turner s sched))
        = trace s @ concat (map iteration vss)
      \<and> (\<forall>vs\<in>set vss. length vs = 5 \<and> (\<forall>v\<in>set vs. \<exists>t\<in>phases. v = masked_porte OR t))
      \<and> (returned (stepper_loop num_steps direction masked_porte steps turner s sched)
           \<and> sint num_steps < 32767 \<longrightarrow>
         int (length vss) = sint num_steps + 1 - sint steps \<or>
         (vss = [] \<and> sint num_steps < sint steps))"
  using assms(2)
proof (induction sched arbitrary: steps turner s rule: measure_induct_rule [of length])
  case (less sched)
  define nxt where "nxt = (if direction = 1 then cw_next else ccw_next)"
  then have nxt: "nxt = cw_next \<or> nxt = ccw_next" by simp
  define s1 where "s1 = s\<lparr>PORTE := masked_porte OR (nxt ^^ 4) turner,
    trace := trace s @ map Write_PORTE (five_writes nxt masked_porte turner)\<rparr>"
  let ?loop = "stepper_loop num_steps direction masked_porte"
  let ?ok = "\<lambda>vss. \<forall>vs\<in>set vss. length vs = 5 \<and> (\<forall>v\<in>set vs. \<exists>t\<in>phases. v = masked_porte OR t)"
  note step = stepper_loop_step [OF assms(1), of num_steps masked_porte steps turner s sched,
      folded nxt_def, folded s1_def]
  have fw: "?ok [five_writes nxt masked_porte turner]"
    using five_writes_phases [OF less.prems nxt] by simp
  have tr1: "trace (final (wait_ms 2 s1 sched))
      = trace s @ iteration (five_writes nxt masked_porte turner)"
    by (simp add: wait_ms_frame s1_def iteration_def)
  show ?case
  proof (cases "sint steps \<le> sint num_steps")
    case False
    then have "?loop steps turner s sched = Returns s sched"
      by (simp add: step)
    with False show ?thesis
      by (intro exI [of _ "[]"]) simp
  next
    case True
    show ?thesis
    proof (cases "wait_ms 2 s1 sched")
      case (Blocked s2)
      with True have "?loop steps turner s sched = Blocked s2"
        by (simp add: step)
      moreover from Blocked tr1
      have "trace s2 = trace s @ iteration (five_writes nxt masked_porte turner)" by simp
      ultimately show ?thesis
        using fw by (intro exI [of _ "[five_writes nxt masked_porte turner]"]) simp
    next
      case (Returns s2 rest)
      with True have eq: "?loop steps turner s sched = ?loop (steps + 1) ((nxt ^^ 5) turner) s2 rest"
        by (simp add: step)
      from Returns tr1
      have tr2: "trace s2 = trace s @ iteration (five_writes nxt masked_porte turner)" by simp
      have "length rest < length sched"
        using Returns by (rule wait_ms_shorter)
      moreover have "(nxt ^^ 5) turner \<in> phases"
        using less.prems nxt funpow_phase by blast
      ultimately obtain vss where vss:
        "trace (final (?loop (steps + 1) ((nxt ^^ 5) turner) s2 rest))
           = trace s2 @ concat (map iteration vss)"
        "?ok vss"
        "returned (?loop (steps + 1) ((nxt ^^ 5) turner) s2 rest) \<and> sint num_steps < 32767 \<longrightarrow>
           int (length vss) = sint num_steps + 1 - sint (steps + 1) \<or>
           (vss = [] \<and> sint num_steps < sint (steps + 1))"
        using less.IH [of rest "(nxt ^^ 5) turner" "steps + 1" s2] by blast
      have count: "int (length (five_writes nxt masked_porte turner # vss))
          = sint num_steps + 1 - sint steps"
        if "returned (?loop steps turner s sched)" "sint num_steps < 32767"
      proof -
        from True that(2) have "sint (steps + 1) = sint steps + 1"
          by (intro sint_succ_u16) simp
        with vss(3) that eq True show ?thesis by auto
      qed
      show ?thesis
        using eq tr2 vss(1,2) fw count
        by (intro exI [of _ "five_writes nxt masked_porte turner # vss"]) auto
    qed
  qed
qed


lemma stepper_loop_never_returns:
  assumes "(direction \<noteq> 1 \<and> direction \<noteq> - 1 \<and> sint steps \<le> sint num_steps)
           \<or> sint num_steps = 32767"
  shows "\<not> returned (stepper_loop num_steps direction masked_porte steps turner s sched)"
  using assms
proof (induction sched arbitrary: steps turner s rule: measure_induct_rule [of length])
  case (less sched)
  let ?loop = "stepper_loop num_steps direction masked_porte"
  from less.prems have cond: "sint steps \<le> sint num_steps"
    using sint_le_max_u16 [of steps] by auto
  show ?case
  proof (cases "direction = 1 \<or> direction = - 1")
    case True
    with less.prems have top: "sint num_steps = 32767" by auto
    define nxt where "nxt = (if direction = 1 then cw_next else ccw_next)"
    define s1 where "s1 = s\<lparr>PORTE := masked_porte OR (nxt ^^ 4) turner,
      trace := trace s @ map Write_PORTE (five_writes nxt masked_porte turner)\<rparr>"
    note step = stepper_loop_step [OF True, of num_steps masked_porte steps turner s sched,
        folded nxt_def, folded s1_def]
    show ?thesis
    proof (cases "wait_ms 2 s1 sched")
      case (Blocked s2)
      with cond show ?thesis by (simp add: step)
    next
      case (Returns s2 rest)
      then have "length rest < length sched" by (rule wait_ms_shorter)
      then have "\<not> returned (?loop (steps + 1) ((nxt ^^ 5) turner) s2 rest)"
        using top by (intro less.IH) simp_all
      with Returns cond show ?thesis by (simp add: step)
    qed
  next
    case False
    then have idle: "direction \<noteq> 1" "direction \<noteq> - 1" by simp_all
    note step = stepper_loop_idle [OF idle, of num_steps masked_porte steps turner s sched]
    show ?thesis
    proof (cases "wait_ms 2 s sched")
      case (Blocked s2)
      with cond show ?thesis by (simp add: step)
    next
      case (Returns s2 rest)
      then have "length rest < length sched" by (rule wait_ms_shorter)
      then have "\<not> returned (?loop steps turner s2 rest)"
        using less.prems by (intro less.IH) simp_all
      with Returns cond show ?thesis by (simp add: step)
    qed
  qed
qed

lemma stepper_loop_returns:
  assumes "direction = 1 \<or> direction = - 1" "sint num_steps < 32767"
    "int m = sint num_steps + 1 - sint steps"
  shows "\<exists>s'. stepper_loop num_steps direction masked_porte steps turner s
                 (replicate m (2, 0, 0) @ rest) = Returns s' rest"
  using assms(3)
proof (induction m arbitrary: steps turner s)
  case 0
  then have "\<not> sint steps \<le> sint num_steps" by simp
  then show ?case
    by (simp add: stepper_loop_step [OF assms(1)])
next
  case (Suc m)
  let ?loop = "stepper_loop num_steps direction masked_porte"
  define nxt where "nxt = (if direction = 1 then cw_next else ccw_next)"
  define s1 where "s1 = s\<lparr>PORTE := masked_porte OR (nxt ^^ 4) turner,
    trace := trace s @ map Write_PORTE (five_writes nxt masked_porte turner)\<rparr>"
  note step = stepper_loop_step [OF assms(1), of num_steps masked_porte steps turner s
      "(2, 0, 0) # replicate m (2, 0, 0) @ rest", folded nxt_def, folded s1_def]
  from Suc.prems have cond: "sint steps \<le> sint num_steps" by simp
  with assms(2) have "sint (steps + 1) = sint steps + 1"
    by (intro sint_succ_u16) simp
  with Suc.prems have "int m = sint num_steps + 1 - sint (steps + 1)" by simp
  from Suc.IH [OF this] have later: "\<exists>s'. ?loop (steps + 1) t' s2 (replicate m (2, 0, 0) @ rest)
      = Returns s' rest" for t' s2 .
  obtain s2 where "wait_ms 2 s1 ((2, 0, 0) # replicate m (2, 0, 0) @ rest) = Returns s2 (replicate m (2, 0, 0) @ rest)"
    using wait_ms_2_first_poll by blast
  with cond later show ?case
    by (simp add: step)
qed

lemma no_wait_in_writes: "count_list (map Write_PORTE vs) (Call_wait_ms n) = 0"
  by (induction vs) simp_all

lemma stepper_loop_overrun:
  assumes "direction = 1 \<or> direction = - 1" "sint num_steps = 32767"
  shows "count_list
           (trace (final (stepper_loop num_steps direction masked_porte steps turner s
                            (replicate m (2, 0, 0)))))
           (Call_wait_ms 2)
         = count_list (trace s) (Call_wait_ms 2) + Suc m"
proof (induction m arbitrary: steps turner s)
  case 0
  define nxt where "nxt = (if direction = 1 then cw_next else ccw_next)"
  define s1 where "s1 = s\<lparr>PORTE := masked_porte OR (nxt ^^ 4) turner,
    trace := trace s @ map Write_PORTE (five_writes nxt masked_porte turner)\<rparr>"
  note step = stepper_loop_step [OF assms(1), of num_steps masked_porte steps turner s
      "[]", folded nxt_def, folded s1_def]
  have cond: "sint steps \<le> sint num_steps"
    using assms(2) sint_le_max_u16 [of steps] by simp
  have "wait_ms 2 s1 [] = Blocked (wait_ms_entry 2 s1)"
    by (simp add: wait_ms_def)
  with cond have "stepper_loop num_steps direction masked_porte steps turner s []
      = Blocked (wait_ms_entry 2 s1)"
    by (simp add: step)
  then show ?case
    by (simp add: wait_ms_entry_eq s1_def no_wait_in_writes)
next
  case (Suc m)
  define nxt where "nxt = (if direction = 1 then cw_next else ccw_next)"
  define s1 where "s1 = s\<lparr>PORTE := masked_porte OR (nxt ^^ 4) turner,
    trace := trace s @ map Write_PORTE (five_writes nxt masked_porte turner)\<rparr>"
  note step = stepper_loop_step [OF assms(1), of num_steps masked_porte steps turner s
      "(2, 0, 0) # replicate m (2, 0, 0)", folded nxt_def, folded s1_def]
  have cond: "sint steps \<le> sint num_steps"
    using assms(2) sint_le_max_u16 [of steps] by simp
  obtain s2 where s2: "wait_ms 2 s1 ((2, 0, 0) # replicate m (2, 0, 0)) = Returns s2 (replicate m (2, 0, 0))"
    using wait_ms_2_first_poll by blast
  then have "trace s2 = trace s1 @ [Call_wait_ms 2]"
    using wait_ms_frame(1) [of 2 s1 "(2, 0, 0) # replicate m (2, 0, 0)"] by simp
  then have "count_list (trace s2) (Call_wait_ms 2) = count_list (trace s) (Call_wait_ms 2) + 1"
    by (simp add: s1_def no_wait_in_writes)
  with Suc.IH [of "steps + 1" "(nxt ^^ 5) turner" s2] s2 cond show ?case
    by (simp add: step)
qed

lemma bit7_int: "bit (128 :: int) n \<longleftrightarrow> n = 7"
proof -
  have "(128 :: int) = 2 ^ 7" by simp
  then show ?thesis by (simp only: bit_exp_iff) auto
qed

lemma set_bit7_u8: "bit ((x :: u8) OR 0b10000000) n \<longleftrightarrow> n = 7 \<or> bit x n"
  by (auto simp: bit_or_iff bit7_int)

lemma set_then_clear_bit7_u8: "((x :: u8) OR 0b10000000) AND NOT 0b10000000 = x AND 0b01111111"
proof -
  have "unset_bit 7 (x OR 0b10000000) = unset_bit 7 x"
    by (rule bit_eqI) (auto simp: bit_unset_bit_iff set_bit7_u8)
  then show ?thesis by (simp only: clear_bit7_u8)
qed

lemma stepper_loop_idle_trace:
  assumes "direction \<noteq> 1" "direction \<noteq> - 1"
  shows "\<exists>k. trace (final (stepper_loop num_steps direction masked_porte steps turner s sched))
             = trace s @ replicate k (Call_wait_ms 2)"
    and "PORTE (final (stepper_loop num_steps direction masked_porte steps turner s sched))
             = PORTE s"
proof -
  let ?loop = "stepper_loop num_steps direction masked_porte"
  have "(\<exists>k. trace (final (?loop steps turner s sched)) = trace s @ replicate k (Call_wait_ms 2))
      \<and> PORTE (final (?loop steps turner s sched)) = PORTE s"
  proof (induction sched arbitrary: s rule: measure_induct_rule [of length])
    case (less sched)
    note step = stepper_loop_idle [OF assms, of num_steps masked_porte steps turner s sched]
    show ?case
    proof (cases "sint steps \<le> sint num_steps")
      case False
      then have "?loop steps turner s sched = Returns s sched" by (simp add: step)
      then show ?thesis by (simp add: exI [of _ 0])
    next
      case True
      show ?thesis
      proof (cases "wait_ms 2 s sched")
        case (Blocked s2)
        with True have "?loop steps turner s sched = Blocked s2" by (simp add: step)
        moreover from Blocked wait_ms_frame(1,2) [of 2 s sched]
        have "trace s2 = trace s @ replicate 1 (Call_wait_ms 2)" "PORTE s2 = PORTE s" by simp_all
        ultimately show ?thesis by (metis final.simps(2))
      next
        case (Returns s2 rest)
        with True have eq: "?loop steps turner s sched = ?loop steps turner s2 rest"
          by (simp add: step)
        from Returns wait_ms_frame(1,2) [of 2 s sched]
        have s2: "trace s2 = trace s @ [Call_wait_ms 2]" "PORTE s2 = PORTE s" by simp_all
        have "length rest < length sched" using Returns by (rule wait_ms_shorter)
        from less.IH [OF this, of s2] obtain k
          where "trace (final (?loop steps turner s2 rest)) = trace s2 @ replicate k (Call_wait_ms 2)"
            and "PORTE (final (?loop steps turner s2 rest)) = PORTE s2" by blast
        with s2 eq have "trace (final (?loop steps turner s sched))
              = trace s @ replicate (Suc k) (Call_wait_ms 2)"
          "PORTE (final (?loop steps turner s sched)) = PORTE s"
          by simp_all
        then show ?thesis by blast
      qed
    qed
  qed
  then show "\<exists>k. trace (final (?loop steps turner s sched)) = trace s @ replicate k (Call_wait_ms 2)"
    and "PORTE (final (?loop steps turner s sched)) = PORTE s"
    by blast+
qed

lemma stepper_loop_unfold:
  "\<exists>steps1 turner1 s1.
     old_value s1 = old_value s \<and> PINC s1 = PINC s \<and> DDRC s1 = DDRC s
     \<and> PORTC s1 = PORTC s \<and> DDRE s1 = DDRE s
     \<and> stepper_loop num_steps direction masked_porte steps turner s sched =
         (if sint steps \<le> sint num_steps then
            (case wait_ms 2 s1 sched of
               Returns s' rest \<Rightarrow>
                 stepper_loop num_steps direction masked_porte steps1 turner1 s' rest
             | Blocked s' \<Rightarrow> Blocked s')
          else Returns s sched)"
proof (cases "direction = 1 \<or> direction = - 1")
  case True
  define nxt where "nxt = (if direction = 1 then cw_next else ccw_next)"
  define s1 where "s1 = s\<lparr>PORTE := masked_porte OR (nxt ^^ 4) turner,
    trace := trace s @ map Write_PORTE (five_writes nxt masked_porte turner)\<rparr>"
  note step = stepper_loop_step [OF True, of num_steps masked_porte steps turner s sched,
      folded nxt_def, folded s1_def]
  have "old_value s1 = old_value s \<and> PINC s1 = PINC s \<and> DDRC s1 = DDRC s
     \<and> PORTC s1 = PORTC s \<and> DDRE s1 = DDRE s"
    by (simp add: s1_def)
  with step show ?thesis by blast
next
  case False
  then have "direction \<noteq> 1" "direction \<noteq> - 1" by simp_all
  from stepper_loop_idle [OF this, of num_steps masked_porte steps turner s sched]
  show ?thesis by blast
qed

lemma stepper_loop_frame:
  "old_value (final (stepper_loop num_steps direction masked_porte steps turner s sched))
     = old_value s
   \<and> PINC (final (stepper_loop num_steps direction masked_porte steps turner s sched)) = PINC s
   \<and> DDRC (final (stepper_loop num_steps direction masked_porte steps turner s sched)) = DDRC s
   \<and> PORTC (final (stepper_loop num_steps direction masked_porte steps turner s sched)) = PORTC s
   \<and> DDRE (final (stepper_loop num_steps direction masked_porte steps turner s sched)) = DDRE s"
proof (induction sched arbitrary: steps turner s rule: measure_induct_rule [of length])
  case (less sched)
  let ?loop = "stepper_loop num_steps direction masked_porte"
  obtain steps1 turner1 s1 where
    s1: "old_value s1 = old_value s" "PINC s1 = PINC s" "DDRC s1 = DDRC s"
      "PORTC s1 = PORTC s" "DDRE s1 = DDRE s"
    and step: "?loop steps turner s sched =
     (if sint steps \<le> sint num_steps then
        (case wait_ms 2 s1 sched of
           Returns s' rest \<Rightarrow> ?loop steps1 turner1 s' rest
         | Blocked s' \<Rightarrow> Blocked s')
      else Returns s sched)"
    using stepper_loop_unfold [of s num_steps direction masked_porte steps turner sched]
    by blast
  show ?case
  proof (cases "sint steps \<le> sint num_steps")
    case False
    then show ?thesis by (simp add: step)
  next
    case True
    show ?thesis
    proof (cases "wait_ms 2 s1 sched")
      case (Blocked s2)
      with True wait_ms_frame [of 2 s1 sched] s1 show ?thesis by (simp add: step)
    next
      case (Returns s2 rest)
      then have "length rest < length sched" by (rule wait_ms_shorter)
      from less.IH [OF this, of steps1 turner1 s2] Returns True wait_ms_frame [of 2 s1 sched] s1
      show ?thesis by (simp add: step)
    qed
  qed
qed

lemma low_nibble_bit: "bit ((p :: u8) AND 0b00001111) i \<longleftrightarrow> bit p i \<and> i < 4"
proof -
  have "(0b00001111 :: u8) = mask 4" by (simp add: mask_eq_exp_minus_1)
  then have "bit ((p :: u8) AND 0b00001111) i \<longleftrightarrow> bit (p AND mask 4) i" by simp
  also have "\<dots> \<longleftrightarrow> bit p i \<and> i < 4"
    by (auto simp only: bit_and_iff bit_mask_iff dest: bit_imp_possible_bit)
  finally show ?thesis .
qed

lemma exp_bit_u8: "k < 8 \<Longrightarrow> bit (2 ^ k :: u8) i \<longleftrightarrow> i = k"
  by (auto simp add: bit_exp_iff)

lemma phase_bit:
  assumes "t \<in> phases"
  shows "\<exists>k\<in>{4..7}. \<forall>i. bit t i \<longleftrightarrow> i = k"
proof -
  from assms have "t = 2 ^ 4 \<or> t = 2 ^ 5 \<or> t = 2 ^ 6 \<or> t = 2 ^ 7"
    by (simp add: phases_def)
  then consider "t = 2 ^ 4" | "t = 2 ^ 5" | "t = 2 ^ 6" | "t = 2 ^ 7" by blast
  then show ?thesis
  proof cases
    case 1
    then have "\<forall>i. bit t i \<longleftrightarrow> i = 4" by (simp only: exp_bit_u8) simp
    then show ?thesis by (intro bexI [of _ 4]) simp_all
  next
    case 2
    then have "\<forall>i. bit t i \<longleftrightarrow> i = 5" by (simp only: exp_bit_u8) simp
    then show ?thesis by (intro bexI [of _ 5]) simp_all
  next
    case 3
    then have "\<forall>i. bit t i \<longleftrightarrow> i = 6" by (simp only: exp_bit_u8) simp
    then show ?thesis by (intro bexI [of _ 6]) simp_all
  next
    case 4
    then have "\<forall>i. bit t i \<longleftrightarrow> i = 7" by (simp only: exp_bit_u8) simp
    then show ?thesis by (intro bexI [of _ 7]) simp_all
  qed
qed


lemma coil_value:
  assumes "t \<in> phases"
  shows "((p AND 0b00001111) OR t) AND 0b11110000 = t"
    and "((p AND 0b00001111) OR t) AND 0b00001111 = p AND 0b00001111"
    and "\<exists>!i. i \<in> {4..7} \<and> bit ((p AND 0b00001111) OR t) i"
proof -
  have hi: "t AND 0b11110000 = t" and lo: "t AND 0b00001111 = 0"
    using assms by (auto simp: phases_def)
  have "((p AND 0b00001111) OR t) AND 0b11110000
      = (p AND (0b00001111 AND 0b11110000)) OR (t AND 0b11110000)"
    by (simp only: bit.conj_disj_distrib2 and.assoc)
  then show "((p AND 0b00001111) OR t) AND 0b11110000 = t"
    by (simp add: hi)
  have "((p AND 0b00001111) OR t) AND 0b00001111
      = (p AND (0b00001111 AND 0b00001111)) OR (t AND 0b00001111)"
    by (simp only: bit.conj_disj_distrib2 and.assoc)
  then show "((p AND 0b00001111) OR t) AND 0b00001111 = p AND 0b00001111"
    by (simp add: lo)
  from phase_bit [OF assms] obtain k where k: "k \<in> {4..7}" "\<forall>i. bit t i \<longleftrightarrow> i = k"
    by blast
  have only_k: "i \<in> {4..7} \<and> bit ((p AND 0b00001111) OR t) i \<longleftrightarrow> i = k" for i
  proof -
    have "bit ((p AND 0b00001111) OR t) i \<longleftrightarrow> (bit p i \<and> i < 4) \<or> i = k"
      using k(2) by (simp only: bit_or_iff low_nibble_bit)
    with k(1) show ?thesis by auto
  qed
  show "\<exists>!i. i \<in> {4..7} \<and> bit ((p AND 0b00001111) OR t) i"
    by (simp only: only_k ex1_eq)
qed

lemma stepper_init_old_value:
  "old_value (final (stepper_init s sched)) = old_value s"
proof -
  define s1 where "s1 = write_PORTE (PORTE (s\<lparr>DDRE := DDRE s OR 0xF0\<rparr>) AND 0x8F)
    (s\<lparr>DDRE := DDRE s OR 0xF0\<rparr>)"
  have s1: "old_value s1 = old_value s" by (simp add: s1_def write_PORTE_def)
  have eq: "stepper_init s sched =
     (case wait_ms 2 s1 sched of
        Returns s rest \<Rightarrow> Returns (write_PORTE (PORTE s AND 0x0F) s) rest
      | Blocked s \<Rightarrow> Blocked s)"
    by (simp add: stepper_init_def s1_def Let_def)
  show ?thesis
    using wait_ms_frame(7) [of 2 s1 sched] s1
    by (cases "wait_ms 2 s1 sched") (simp_all add: eq write_PORTE_def)
qed

lemma wait_ms_enough_ticks:
  "wait_ms time_val s ((unat time_val, 0, 0) # rest) =
     Returns (s\<lparr>trace := trace s @ [Call_wait_ms time_val], OCR2 := 250,
               timer2_tick := time_val, TCCR2 := 0b00001011,
               TIMSK := TIMSK s AND 0b01111111, I_flag := True\<rparr>) rest"
proof -
  have "wait_ms time_val s ((unat time_val, 0, 0) # rest) =
     Returns (s\<lparr>trace := trace s @ [Call_wait_ms time_val], OCR2 := 250,
               timer2_tick := time_val, TCCR2 := 0b00001011,
               TIMSK := (TIMSK s OR 0b10000000) AND NOT 0b10000000, I_flag := True\<rparr>) rest"
    by (simp add: wait_ms_def wait_ms_entry_eq busy_wait_whole_read timer2_stop_def)
  then show ?thesis by (simp only: set_then_clear_bit7_u8)
qed

lemma stepper_loop_exit:
  "\<not> sint steps \<le> sint num_steps \<Longrightarrow>
     stepper_loop num_steps direction masked_porte steps turner s sched = Returns s sched"
  by (subst stepper_loop.simps) simp

lemma busy_wait_append:
  "busy_wait time_val s (xs @ ys) =
     (case busy_wait time_val s xs of
        Returns s' rest \<Rightarrow> Returns s' (rest @ ys)
      | Blocked s' \<Rightarrow> busy_wait time_val s' ys)"
proof (induction xs arbitrary: s)
  case Nil
  then show ?case by simp
next
  case (Cons p xs)
  obtain a b c where p: "p = (a, b, c)" by (cases p)
  show ?case
    unfolding p append_Cons busy_wait_Cons by (simp add: Cons.IH)
qed

lemma busy_wait_one_more:
  "\<exists>k. returned (busy_wait time_val s (sched @ [(k, 0, 0)]))"
proof (cases "busy_wait time_val s sched")
  case (Returns s' rest)
  then show ?thesis by (simp add: busy_wait_append)
next
  case (Blocked s')
  have "timer2_tick s' + of_nat (unat (time_val - timer2_tick s')) = time_val"
    by simp
  then have "returned (busy_wait time_val s' [(unat (time_val - timer2_tick s'), 0, 0)])"
    by (simp add: busy_wait_whole_read)
  with Blocked show ?thesis
    by (auto simp: busy_wait_append)
qed

lemma wait_ms_one_more:
  "\<exists>k. returned (wait_ms time_val s (sched @ [(k, 0, 0)]))"
proof -
  obtain k where "returned (busy_wait time_val (wait_ms_entry time_val s) (sched @ [(k, 0, 0)]))"
    using busy_wait_one_more by blast
  then have "returned (wait_ms time_val s (sched @ [(k, 0, 0)]))"
    by (cases "busy_wait time_val (wait_ms_entry time_val s) (sched @ [(k, 0, 0)])")
       (simp_all add: wait_ms_def)
  then show ?thesis ..
qed

lemma busy_wait_whole_reads_exit:
  "busy_wait time_val s sched = Returns s' rest \<Longrightarrow>
   \<forall>p\<in>set sched. fst (snd p) = 0 \<and> snd (snd p) = 0 \<Longrightarrow> time_val \<le> timer2_tick s'"
proof (induction sched arbitrary: s)
  case Nil
  then show ?case by simp
next
  case (Cons p ps)
  from Cons.prems(2) obtain a where p: "p = (a, 0, 0)" by (cases p) auto
  show ?case
  proof (cases "timer2_tick s + of_nat a < time_val")
    case True
    with Cons.prems(1) have "busy_wait time_val (s\<lparr>timer2_tick := timer2_tick s + of_nat a\<rparr>) ps
        = Returns s' rest"
      by (simp add: p busy_wait_whole_read)
    from Cons.IH [OF this] Cons.prems(2) show ?thesis by simp
  next
    case False
    with Cons.prems(1) show ?thesis
      by (auto simp: p busy_wait_whole_read)
  qed
qed

section \<open>The claims\<close>

text \<open>
  C4. For every value of \<open>PINC\<close>, \<open>read_push_buttons\<close> returns a value among 0, ..., 6.
  It returns \<open>k\<close> between 1 and 6 exactly when bit \<open>k - 1\<close> of \<open>PINC\<close> is cleared and
  the bits above it, up to bit 5, are set: the highest-numbered cleared bit among bits 0-5
  wins. It returns 0 exactly when bits 0-5 are all set.
\<close>

theorem read_push_buttons_result:
  "fst (read_push_buttons s) \<in> {0, 1, 2, 3, 4, 5, 6}
   \<and> (fst (read_push_buttons s) = 0 \<longleftrightarrow> (\<forall>i<6. bit (PINC s) i))
   \<and> (\<forall>k\<in>{1..6}. fst (read_push_buttons s) = of_nat k \<longleftrightarrow>
         \<not> bit (PINC s) (k - 1) \<and> (\<forall>j. k \<le> j \<and> j < 6 \<longrightarrow> bit (PINC s) j))"
proof (intro conjI ballI)
  show "fst (read_push_buttons s) \<in> {0, 1, 2, 3, 4, 5, 6}"
    by (simp add: read_push_buttons_def)
  show "fst (read_push_buttons s) = 0 \<longleftrightarrow> (\<forall>i<6. bit (PINC s) i)"
    by (simp only: read_push_buttons_cases less_6_cases)
next
  fix k :: nat
  assume "k \<in> {1..6}"
  then consider "k = 1" | "k = 2" | "k = 3" | "k = 4" | "k = 5" | "k = 6"
    by (auto simp: numeral_eq_Suc le_Suc_eq)
  then show "fst (read_push_buttons s) = of_nat k \<longleftrightarrow>
         \<not> bit (PINC s) (k - 1) \<and> (\<forall>j. k \<le> j \<and> j < 6 \<longrightarrow> bit (PINC s) j)"
    by cases (simp_all add: read_push_buttons_cases from_to_6_cases)
qed

text \<open>Buttons 4 and 2 pressed together (bits 3 and 1 cleared): button 4 is reported.\<close>

theorem read_push_buttons_result_witness:
  "(4 :: nat) \<in> {1..6}
   \<and> fst (read_push_buttons (power_on\<lparr>PINC := 0b11110101\<rparr>)) = 4
   \<and> \<not> bit (PINC (power_on\<lparr>PINC := 0b11110101\<rparr>)) 3
   \<and> bit (PINC (power_on\<lparr>PINC := 0b11110101\<rparr>)) 4
   \<and> bit (PINC (power_on\<lparr>PINC := 0b11110101\<rparr>)) 5"
proof -
  have k: "(4 :: nat) \<in> {1..6}" by simp
  have r: "fst (read_push_buttons (power_on\<lparr>PINC := 0b11110101\<rparr>)) = of_nat 4"
    by (simp add: read_push_buttons_def)
  from read_push_buttons_result [of "power_on\<lparr>PINC := 0b11110101\<rparr>"] k r
  have "\<not> bit (PINC (power_on\<lparr>PINC := 0b11110101\<rparr>)) (4 - 1)
        \<and> (\<forall>j. 4 \<le> j \<and> j < 6 \<longrightarrow> bit (PINC (power_on\<lparr>PINC := 0b11110101\<rparr>)) j)"
    by blast
  then have "\<not> bit (PINC (power_on\<lparr>PINC := 0b11110101\<rparr>)) 3"
    "bit (PINC (power_on\<lparr>PINC := 0b11110101\<rparr>)) 4"
    "bit (PINC (power_on\<lparr>PINC := 0b11110101\<rparr>)) 5"
    by simp_all
  with k r show ?thesis by simp
qed

text \<open>
  C5. \<open>read_shaft_encoder\<close> compares the new reading \<open>PINC & 0b11000000\<close> with the
  stored one. It returns 1 exactly when the stored reading is \<open>0b11000000\<close> and the new one
  is \<open>0b01000000\<close>, -1 exactly when the stored reading is \<open>0b11000000\<close> and the new one is
  \<open>0b10000000\<close>, and 0 in every other case. Every call stores the new reading, and the
  stored byte starts as \<open>0b11000000\<close>.
\<close>

theorem read_shaft_encoder_result:
  "(sint (fst (read_shaft_encoder s)) = 1 \<longleftrightarrow>
      old_value s = 0b11000000 \<and> PINC s AND 0b11000000 = 0b01000000)
   \<and> (sint (fst (read_shaft_encoder s)) = - 1 \<longleftrightarrow>
      old_value s = 0b11000000 \<and> PINC s AND 0b11000000 = 0b10000000)
   \<and> (sint (fst (read_shaft_encoder s)) = 0 \<longleftrightarrow>
      \<not> (old_value s = 0b11000000
         \<and> (PINC s AND 0b11000000 = 0b01000000 \<or> PINC s AND 0b11000000 = 0b10000000)))
   \<and> sint (fst (read_shaft_encoder s)) \<in> {- 1, 0, 1}
   \<and> old_value (snd (read_shaft_encoder s)) = PINC s AND 0b11000000
   \<and> old_value (program_start s) = 0b11000000"
  by (simp add: read_shaft_encoder_def program_start_def Let_def)

text \<open>
  C2, as amended. For \<open>0 \<le> num_steps < 32767\<close> and \<open>direction\<close> 1 or -1:
  once every wait has been allowed to finish, \<open>move_stepper_motor_by_step\<close> returns, and
  whenever it returns its \<open>while\<close> loop has run exactly \<open>num_steps + 1\<close> iterations,
  each of them five stores to \<open>PORTE\<close> followed by one call \<open>wait_ms(2)\<close>.
\<close>

theorem move_stepper_iterations:
  assumes "0 \<le> sint num_steps" "sint num_steps < 32767" "direction = 1 \<or> direction = - 1"
  shows "(\<exists>s'. move_stepper_motor_by_step num_steps direction s
                 (replicate (nat (sint num_steps) + 1) (2, 0, 0) @ rest) = Returns s' rest)
    \<and> (move_stepper_motor_by_step num_steps direction s sched = Returns s' rest' \<longrightarrow>
         (\<exists>vss. length vss = nat (sint num_steps) + 1 \<and> (\<forall>vs\<in>set vss. length vs = 5)
            \<and> trace s' = trace s @ concat (map iteration vss)))"
proof
  have "int (nat (sint num_steps) + 1) = sint num_steps + 1 - sint (0 :: u16)"
    using assms(1) by simp
  from stepper_loop_returns [OF assms(3) assms(2) this]
  show "\<exists>s'. move_stepper_motor_by_step num_steps direction s
                 (replicate (nat (sint num_steps) + 1) (2, 0, 0) @ rest) = Returns s' rest"
    by (simp add: move_stepper_motor_by_step_def)
next
  show "move_stepper_motor_by_step num_steps direction s sched = Returns s' rest' \<longrightarrow>
         (\<exists>vss. length vss = nat (sint num_steps) + 1 \<and> (\<forall>vs\<in>set vss. length vs = 5)
            \<and> trace s' = trace s @ concat (map iteration vss))"
  proof
    assume ret: "move_stepper_motor_by_step num_steps direction s sched = Returns s' rest'"
    have "(0b00010000 :: u8) \<in> phases" by (simp add: phases_def)
    from stepper_loop_trace [OF assms(3) this,
        of num_steps "PORTE s AND 0b00001111" 0 s sched] ret
    obtain vss where vss: "trace s' = trace s @ concat (map iteration vss)"
      "\<forall>vs\<in>set vss. length vs = 5"
      "sint num_steps < 32767 \<longrightarrow> int (length vss) = sint num_steps + 1 - sint (0 :: u16)
         \<or> (vss = [] \<and> sint num_steps < sint (0 :: u16))"
      by (auto simp: move_stepper_motor_by_step_def)
    from vss(3) assms(1,2) have "length vss = nat (sint num_steps) + 1" by simp
    with vss(1,2) show "\<exists>vss. length vss = nat (sint num_steps) + 1
        \<and> (\<forall>vs\<in>set vss. length vs = 5) \<and> trace s' = trace s @ concat (map iteration vss)"
      by blast
  qed
qed

text \<open>One requested step, clockwise: two iterations.\<close>

theorem move_stepper_iterations_witness:
  "0 \<le> sint (1 :: u16) \<and> sint (1 :: u16) < 32767
   \<and> returned (move_stepper_motor_by_step 1 1 power_on [(2, 0, 0), (2, 0, 0), (2, 0, 0)])
   \<and> trace (final (move_stepper_motor_by_step 1 1 power_on [(2, 0, 0), (2, 0, 0), (2, 0, 0)])) =
        [Write_PORTE 16, Write_PORTE 32, Write_PORTE 64, Write_PORTE 128, Write_PORTE 16,
         Call_wait_ms 2,
         Write_PORTE 32, Write_PORTE 64, Write_PORTE 128, Write_PORTE 16, Write_PORTE 32,
         Call_wait_ms 2]
   \<and> (\<exists>vss. length vss = 2 \<and> (\<forall>vs\<in>set vss. length vs = 5)
         \<and> trace (final (move_stepper_motor_by_step 1 1 power_on [(2, 0, 0), (2, 0, 0), (2, 0, 0)]))
             = concat (map iteration vss))"
proof -
  have h: "0 \<le> sint (1 :: u16)" "sint (1 :: u16) < 32767" "(1 :: u16) = 1 \<or> (1 :: u16) = - 1"
    by simp_all
  have run: "returned (move_stepper_motor_by_step 1 1 power_on [(2, 0, 0), (2, 0, 0), (2, 0, 0)])"
    "trace (final (move_stepper_motor_by_step 1 1 power_on [(2, 0, 0), (2, 0, 0), (2, 0, 0)])) =
        [Write_PORTE 16, Write_PORTE 32, Write_PORTE 64, Write_PORTE 128, Write_PORTE 16,
         Call_wait_ms 2,
         Write_PORTE 32, Write_PORTE 64, Write_PORTE 128, Write_PORTE 16, Write_PORTE 32,
         Call_wait_ms 2]"
    by code_simp+
  from run(1) obtain s' rest' where
    ret: "move_stepper_motor_by_step 1 1 power_on [(2, 0, 0), (2, 0, 0), (2, 0, 0)] = Returns s' rest'"
    by (cases "move_stepper_motor_by_step 1 1 power_on [(2, 0, 0), (2, 0, 0), (2, 0, 0)]") simp_all
  have start: "trace power_on = []" by (simp add: power_on_def program_start_def)
  note move_stepper_iterations [OF h, where s = power_on and sched = "[(2, 0, 0), (2, 0, 0), (2, 0, 0)]"
      and s' = s' and rest' = rest', THEN conjunct2, THEN mp, OF ret]
  then obtain vss where "length vss = nat (sint (1 :: u16)) + 1" "\<forall>vs\<in>set vss. length vs = 5"
    "trace s' = trace power_on @ concat (map iteration vss)"
    by blast
  with ret start
  have "\<exists>vss. length vss = 2 \<and> (\<forall>vs\<in>set vss. length vs = 5)
         \<and> trace (final (move_stepper_motor_by_step 1 1 power_on [(2, 0, 0), (2, 0, 0), (2, 0, 0)]))
             = concat (map iteration vss)"
    by (intro exI [of _ vss]) simp
  with h run show ?thesis by simp
qed

text \<open>
  C2 as stated fails at \<open>num_steps = 32767\<close>, the largest \<open>int\<close>: \<open>steps <= num_steps\<close>
  holds for every value of \<open>steps\<close>, and \<open>steps++\<close> wraps. After 32768 waits have
  finished the function has not returned and is in its 32769th iteration.
\<close>

theorem move_stepper_int_max_counterexample:
  "\<not> returned (move_stepper_motor_by_step 32767 1 power_on (replicate 32768 (2, 0, 0)))
   \<and> count_list (trace (final (move_stepper_motor_by_step 32767 1 power_on (replicate 32768 (2, 0, 0)))))
        (Call_wait_ms 2) = 32769"
proof
  have top: "sint (32767 :: u16) = 32767" by simp
  then show "\<not> returned (move_stepper_motor_by_step 32767 1 power_on (replicate 32768 (2, 0, 0)))"
    by (simp only: move_stepper_motor_by_step_def Let_def)
       (rule stepper_loop_never_returns, simp)
  have "trace power_on = []" by (simp add: power_on_def program_start_def)
  with stepper_loop_overrun [of 1 32767 "PORTE power_on AND 0b00001111" 0 "0b00010000"
      power_on 32768] top
  show "count_list
     (trace (final (move_stepper_motor_by_step 32767 1 power_on (replicate 32768 (2, 0, 0)))))
     (Call_wait_ms 2) = 32769"
    by (simp add: move_stepper_motor_by_step_def)
qed

text \<open>
  C3. For \<open>num_steps \<ge> 0\<close> and a \<open>direction\<close> other than 1 and -1,
  \<open>move_stepper_motor_by_step\<close> does not return, whatever the interrupts: neither branch
  runs, the loop goes on with \<open>steps\<close> unchanged, and all it does is to call
  \<open>wait_ms(2)\<close> again and again.
\<close>

theorem move_stepper_bad_direction_never_returns:
  assumes "0 \<le> sint num_steps" "direction \<noteq> 1" "direction \<noteq> - 1"
  shows "\<not> returned (move_stepper_motor_by_step num_steps direction s sched)
     \<and> (\<exists>k. trace (final (move_stepper_motor_by_step num_steps direction s sched))
              = trace s @ replicate k (Call_wait_ms 2))
     \<and> stepper_loop num_steps direction masked_porte steps turner s sched =
         (if sint steps \<le> sint num_steps then
            (case wait_ms 2 s sched of
               Returns s' rest \<Rightarrow>
                 stepper_loop num_steps direction masked_porte steps turner s' rest
             | Blocked s' \<Rightarrow> Blocked s')
          else Returns s sched)"
proof (intro conjI)
  from assms have "(direction \<noteq> 1 \<and> direction \<noteq> - 1 \<and> sint (0 :: u16) \<le> sint num_steps)
      \<or> sint num_steps = 32767" by simp
  from stepper_loop_never_returns [OF this]
  show "\<not> returned (move_stepper_motor_by_step num_steps direction s sched)"
    by (simp add: move_stepper_motor_by_step_def)
  from stepper_loop_idle_trace(1) [OF assms(2,3)]
  show "\<exists>k. trace (final (move_stepper_motor_by_step num_steps direction s sched))
              = trace s @ replicate k (Call_wait_ms 2)"
    by (simp add: move_stepper_motor_by_step_def)
  from stepper_loop_idle [OF assms(2,3)]
  show "stepper_loop num_steps direction masked_porte steps turner s sched =
         (if sint steps \<le> sint num_steps then
            (case wait_ms 2 s sched of
               Returns s' rest \<Rightarrow>
                 stepper_loop num_steps direction masked_porte steps turner s' rest
             | Blocked s' \<Rightarrow> Blocked s')
          else Returns s sched)" .
qed

text \<open>Direction 0: after three waits have finished the function is in its fourth.\<close>

theorem move_stepper_bad_direction_never_returns_witness:
  "0 \<le> sint (1 :: u16) \<and> (0 :: u16) \<noteq> 1 \<and> (0 :: u16) \<noteq> - 1
   \<and> \<not> returned (move_stepper_motor_by_step 1 0 power_on [(2, 0, 0), (2, 0, 0), (2, 0, 0)])
   \<and> trace (final (move_stepper_motor_by_step 1 0 power_on [(2, 0, 0), (2, 0, 0), (2, 0, 0)]))
       = replicate 4 (Call_wait_ms 2)"
proof -
  have h: "0 \<le> sint (1 :: u16)" "(0 :: u16) \<noteq> 1" "(0 :: u16) \<noteq> - 1"
    by simp_all
  have run: "trace (final (move_stepper_motor_by_step 1 0 power_on [(2, 0, 0), (2, 0, 0), (2, 0, 0)]))
       = replicate 4 (Call_wait_ms 2)"
    by code_simp
  from move_stepper_bad_direction_never_returns [OF h, where s = power_on
      and sched = "[(2, 0, 0), (2, 0, 0), (2, 0, 0)]"]
  have "\<not> returned (move_stepper_motor_by_step 1 0 power_on [(2, 0, 0), (2, 0, 0), (2, 0, 0)])"
    by blast
  with h run show ?thesis by simp
qed

text \<open>
  C9. With \<open>direction\<close> 1 or -1, every value that \<open>move_stepper_motor_by_step\<close> stores
  to \<open>PORTE\<close>, up to its return or to any moment before, has its high nibble equal to
  one of \<open>0b00010000\<close>, \<open>0b00100000\<close>, \<open>0b01000000\<close>, \<open>0b10000000\<close>, so exactly one of
  bits 4-7 set, and its low nibble equal to \<open>PORTE & 0b00001111\<close> as read on entry.
\<close>

theorem move_stepper_coil_values:
  assumes "direction = 1 \<or> direction = - 1"
  shows "\<exists>evs. trace (final (move_stepper_motor_by_step num_steps direction s sched))
             = trace s @ evs
       \<and> (\<forall>v. Write_PORTE v \<in> set evs \<longrightarrow>
             v AND 0b11110000 \<in> {0b00010000, 0b00100000, 0b01000000, 0b10000000}
             \<and> (\<exists>!i. i \<in> {4..7} \<and> bit v i)
             \<and> v AND 0b00001111 = PORTE s AND 0b00001111)"
proof -
  let ?mp = "PORTE s AND 0b00001111"
  have "(0b00010000 :: u8) \<in> phases" by (simp add: phases_def)
  from stepper_loop_trace [OF assms this, of num_steps ?mp 0 s sched]
  obtain vss where vss:
    "trace (final (move_stepper_motor_by_step num_steps direction s sched))
       = trace s @ concat (map iteration vss)"
    "\<forall>vs\<in>set vss. \<forall>v\<in>set vs. \<exists>t\<in>phases. v = ?mp OR t"
    by (auto simp: move_stepper_motor_by_step_def)
  have "v AND 0b11110000 \<in> {0b00010000, 0b00100000, 0b01000000, 0b10000000}
        \<and> (\<exists>!i. i \<in> {4..7} \<and> bit v i) \<and> v AND 0b00001111 = ?mp"
    if "Write_PORTE v \<in> set (concat (map iteration vss))" for v
  proof -
    from that obtain vs where "vs \<in> set vss" "Write_PORTE v \<in> set (iteration vs)"
      by auto
    then have "vs \<in> set vss" "v \<in> set vs"
      by (auto simp: iteration_def)
    with vss(2) obtain t where t: "t \<in> phases" "v = ?mp OR t" by blast
    from coil_value [OF t(1), of "PORTE s"] t show ?thesis
      by (simp add: phases_def)
  qed
  with vss(1) show ?thesis by blast
qed

text \<open>Counter-clockwise, the second store is \<open>0b10000000\<close>.\<close>

theorem move_stepper_coil_values_witness:
  "Write_PORTE 0b10000000 \<in> set (trace (final (move_stepper_motor_by_step 1 (- 1) power_on [(2, 0, 0), (2, 0, 0), (2, 0, 0)])))
   \<and> (0b10000000 :: u8) AND 0b11110000 \<in> {0b00010000, 0b00100000, 0b01000000, 0b10000000}
   \<and> (\<exists>!i. i \<in> {4..7} \<and> bit (0b10000000 :: u8) i)
   \<and> (0b10000000 :: u8) AND 0b00001111 = PORTE power_on AND 0b00001111"
proof -
  have h: "(- 1 :: u16) = 1 \<or> (- 1 :: u16) = - 1" by simp
  have run: "Write_PORTE 0b10000000
      \<in> set (trace (final (move_stepper_motor_by_step 1 (- 1) power_on [(2, 0, 0), (2, 0, 0), (2, 0, 0)])))"
    by code_simp
  have start: "trace power_on = []" by (simp add: power_on_def program_start_def)
  from move_stepper_coil_values [OF h, of 1 power_on "[(2, 0, 0), (2, 0, 0), (2, 0, 0)]"] obtain evs
    where evs: "trace (final (move_stepper_motor_by_step 1 (- 1) power_on [(2, 0, 0), (2, 0, 0), (2, 0, 0)]))
        = trace power_on @ evs"
      and ok: "\<forall>v. Write_PORTE v \<in> set evs \<longrightarrow>
             v AND 0b11110000 \<in> {0b00010000, 0b00100000, 0b01000000, 0b10000000}
             \<and> (\<exists>!i. i \<in> {4..7} \<and> bit v i)
             \<and> v AND 0b00001111 = PORTE power_on AND 0b00001111"
    by blast
  from evs start run have "Write_PORTE 0b10000000 \<in> set evs" by simp
  with ok have "(0b10000000 :: u8) AND 0b11110000 \<in> {0b00010000, 0b00100000, 0b01000000, 0b10000000}
   \<and> (\<exists>!i. i \<in> {4..7} \<and> bit (0b10000000 :: u8) i)
   \<and> (0b10000000 :: u8) AND 0b00001111 = PORTE power_on AND 0b00001111"
    by blast
  with run show ?thesis by blast
qed

text \<open>
  C6. The module's variables that live across calls are \<open>timer2_tick\<close> and \<open>old_value\<close>;
  the other fields of the memory are hardware registers and the log. \<open>read_push_buttons\<close>
  leaves the whole memory as it is and its result depends on \<open>PINC\<close> only.
  \<open>read_shaft_encoder\<close> changes \<open>old_value\<close> and nothing else, and its result depends
  on \<open>PINC\<close> and \<open>old_value\<close> only. No other function changes \<open>old_value\<close>, and the
  input routines leave \<open>timer2_tick\<close> alone.
\<close>

theorem persistent_state_frame:
  "snd (read_push_buttons s) = s
   \<and> (PINC s' = PINC s \<longrightarrow> fst (read_push_buttons s') = fst (read_push_buttons s))
   \<and> snd (read_shaft_encoder s) = s\<lparr>old_value := PINC s AND 0b11000000\<rparr>
   \<and> (PINC s' = PINC s \<and> old_value s' = old_value s \<longrightarrow>
        fst (read_shaft_encoder s') = fst (read_shaft_encoder s))
   \<and> old_value (timer2_start unit s) = old_value s
   \<and> old_value (timer2_stop s) = old_value s
   \<and> old_value (TIMER2_COMP_vect s) = old_value s
   \<and> old_value (init_push_buttons s) = old_value s
   \<and> old_value (shaft_encoder_init s) = old_value s
   \<and> old_value (final (wait_ms time_val s sched)) = old_value s
   \<and> old_value (final (stepper_init s sched)) = old_value s
   \<and> old_value (final (move_stepper_motor_by_step num_steps direction s sched)) = old_value s
   \<and> timer2_tick (init_push_buttons s) = timer2_tick s
   \<and> timer2_tick (shaft_encoder_init s) = timer2_tick s
   \<and> timer2_tick (snd (read_shaft_encoder s)) = timer2_tick s"
proof -
  have "old_value (final (move_stepper_motor_by_step num_steps direction s sched)) = old_value s"
    using stepper_loop_frame [of num_steps direction "PORTE s AND 0b00001111" 0 "0b00010000" s sched]
    by (simp add: move_stepper_motor_by_step_def)
  moreover have "old_value (final (wait_ms time_val s sched)) = old_value s"
    by (rule wait_ms_frame)
  moreover note stepper_init_old_value [of s sched]
  moreover have "snd (read_push_buttons s) = s"
    "PINC s' = PINC s \<longrightarrow> fst (read_push_buttons s') = fst (read_push_buttons s)"
    by (simp_all add: read_push_buttons_def)
  moreover have "snd (read_shaft_encoder s) = s\<lparr>old_value := PINC s AND 0b11000000\<rparr>"
    "PINC s' = PINC s \<and> old_value s' = old_value s \<longrightarrow>
        fst (read_shaft_encoder s') = fst (read_shaft_encoder s)"
    "timer2_tick (snd (read_shaft_encoder s)) = timer2_tick s"
    by (simp_all add: read_shaft_encoder_def Let_def)
  moreover have "old_value (timer2_start unit s) = old_value s"
    "old_value (timer2_stop s) = old_value s"
    "old_value (TIMER2_COMP_vect s) = old_value s"
    "old_value (init_push_buttons s) = old_value s"
    "old_value (shaft_encoder_init s) = old_value s"
    "timer2_tick (init_push_buttons s) = timer2_tick s"
    "timer2_tick (shaft_encoder_init s) = timer2_tick s"
    by (simp_all add: timer2_start_def timer2_stop_def TIMER2_COMP_vect_def
        init_push_buttons_def shaft_encoder_init_def Let_def)
  ultimately show ?thesis by simp
qed

text \<open>
  Two memories that differ in \<open>PORTE\<close> only give the same readings; a reading of
  \<open>0b01000000\<close> is what the encoder routine stores.
\<close>

theorem persistent_state_frame_witness:
  "PINC (power_on\<lparr>PORTE := 0x55\<rparr>) = PINC power_on
   \<and> old_value (power_on\<lparr>PORTE := 0x55\<rparr>) = old_value power_on
   \<and> fst (read_push_buttons (power_on\<lparr>PORTE := 0x55\<rparr>)) = 0
   \<and> fst (read_push_buttons power_on) = 0
   \<and> fst (read_shaft_encoder (power_on\<lparr>PORTE := 0x55\<rparr>)) = fst (read_shaft_encoder power_on)
   \<and> snd (read_push_buttons power_on) = power_on
   \<and> old_value (snd (read_shaft_encoder (power_on\<lparr>PINC := 0x40\<rparr>))) = 0x40"
proof -
  have h: "PINC (power_on\<lparr>PORTE := 0x55\<rparr>) = PINC power_on"
    "old_value (power_on\<lparr>PORTE := 0x55\<rparr>) = old_value power_on"
    by simp_all
  have v: "fst (read_push_buttons power_on) = 0"
    by code_simp
  note t = persistent_state_frame [where s = power_on and s' = "power_on\<lparr>PORTE := 0x55\<rparr>"]
  from t h have "fst (read_push_buttons (power_on\<lparr>PORTE := 0x55\<rparr>))
      = fst (read_push_buttons power_on)"
    "fst (read_shaft_encoder (power_on\<lparr>PORTE := 0x55\<rparr>)) = fst (read_shaft_encoder power_on)"
    "snd (read_push_buttons power_on) = power_on"
    by blast+
  moreover from persistent_state_frame [where s = "power_on\<lparr>PINC := 0x40\<rparr>"]
  have "snd (read_shaft_encoder (power_on\<lparr>PINC := 0x40\<rparr>))
      = (power_on\<lparr>PINC := 0x40\<rparr>)\<lparr>old_value := PINC (power_on\<lparr>PINC := 0x40\<rparr>) AND 0b11000000\<rparr>"
    by blast
  then have "old_value (snd (read_shaft_encoder (power_on\<lparr>PINC := 0x40\<rparr>))) = 0x40"
    by simp
  ultimately show ?thesis using h v by simp
qed

text \<open>
  C7. No function rejects an argument. \<open>timer2_start\<close> with a unit other than 0 and 1
  configures nothing and still zeroes the counter and enables interrupts. \<open>wait_ms\<close>
  returns for every \<open>time_val\<close> once that many ticks have come. With a negative
  \<open>num_steps\<close>, \<open>move_stepper_motor_by_step\<close> returns at once and leaves the memory
  as it is; with \<open>num_steps\<close> 0 or above 200, outside the documented range 1 to 200, it
  drives the motor through \<open>num_steps + 1\<close> iterations like for any other value; with a
  direction other than 1 and -1 it neither returns nor stores to \<open>PORTE\<close>. The functions
  return \<open>void\<close> or a reading, so a result of the model is a memory or a reading, never
  an error.
\<close>

theorem no_input_validation:
  "(unit \<noteq> 0 \<and> unit \<noteq> 1 \<longrightarrow> timer2_start unit s = s\<lparr>timer2_tick := 0, I_flag := True\<rparr>)
   \<and> (\<exists>s'. wait_ms time_val s ((unat time_val, 0, 0) # rest) = Returns s' rest)
   \<and> (sint num_steps < 0 \<longrightarrow>
        move_stepper_motor_by_step num_steps direction s sched = Returns s sched)
   \<and> ((sint num_steps = 0 \<or> 200 < sint num_steps) \<and> sint num_steps < 32767
        \<and> (direction = 1 \<or> direction = - 1) \<longrightarrow>
        (\<exists>s' vss. move_stepper_motor_by_step num_steps direction s
                     (replicate (nat (sint num_steps) + 1) (2, 0, 0) @ rest) = Returns s' rest
           \<and> length vss = nat (sint num_steps) + 1 \<and> (\<forall>vs\<in>set vss. length vs = 5)
           \<and> trace s' = trace s @ concat (map iteration vss)))
   \<and> (0 \<le> sint num_steps \<and> direction \<noteq> 1 \<and> direction \<noteq> - 1 \<longrightarrow>
        \<not> returned (move_stepper_motor_by_step num_steps direction s sched)
        \<and> PORTE (final (move_stepper_motor_by_step num_steps direction s sched)) = PORTE s)"
proof (intro conjI impI)
  assume "unit \<noteq> 0 \<and> unit \<noteq> 1"
  then show "timer2_start unit s = s\<lparr>timer2_tick := 0, I_flag := True\<rparr>"
    by (simp add: timer2_start_def)
next
  show "\<exists>s'. wait_ms time_val s ((unat time_val, 0, 0) # rest) = Returns s' rest"
    by (simp only: wait_ms_enough_ticks) blast
next
  assume "sint num_steps < 0"
  then have "\<not> sint (0 :: u16) \<le> sint num_steps" by simp
  from stepper_loop_exit [OF this]
  show "move_stepper_motor_by_step num_steps direction s sched = Returns s sched"
    by (simp add: move_stepper_motor_by_step_def)
next
  assume a: "(sint num_steps = 0 \<or> 200 < sint num_steps) \<and> sint num_steps < 32767
        \<and> (direction = 1 \<or> direction = - 1)"
  let ?sched = "replicate (nat (sint num_steps) + 1) (2, 0, 0) @ rest"
  let ?mp = "PORTE s AND 0b00001111"
  from a have d: "direction = 1 \<or> direction = - 1" and top: "sint num_steps < 32767"
    and pos: "0 \<le> sint num_steps" by auto
  from pos have "int (nat (sint num_steps) + 1) = sint num_steps + 1 - sint (0 :: u16)"
    by simp
  from stepper_loop_returns [OF d top this]
  obtain s' where ret: "stepper_loop num_steps direction ?mp 0 0b00010000 s ?sched
      = Returns s' rest"
    by blast
  have "(0b00010000 :: u8) \<in> phases" by (simp add: phases_def)
  from stepper_loop_trace [OF d this, of num_steps ?mp 0 s ?sched] ret top
  obtain vss where vss: "trace s' = trace s @ concat (map iteration vss)"
    "\<forall>vs\<in>set vss. length vs = 5"
    "int (length vss) = sint num_steps + 1 - sint (0 :: u16)
       \<or> (vss = [] \<and> sint num_steps < sint (0 :: u16))"
    by auto
  from vss(3) pos have "length vss = nat (sint num_steps) + 1" by simp
  with vss(1,2) ret
  show "\<exists>s' vss. move_stepper_motor_by_step num_steps direction s ?sched = Returns s' rest
           \<and> length vss = nat (sint num_steps) + 1 \<and> (\<forall>vs\<in>set vss. length vs = 5)
           \<and> trace s' = trace s @ concat (map iteration vss)"
    by (simp add: move_stepper_motor_by_step_def) blast
next
  assume a: "0 \<le> sint num_steps \<and> direction \<noteq> 1 \<and> direction \<noteq> - 1"
  then have "(direction \<noteq> 1 \<and> direction \<noteq> - 1 \<and> sint (0 :: u16) \<le> sint num_steps)
      \<or> sint num_steps = 32767" by simp
  from stepper_loop_never_returns [OF this]
  show "\<not> returned (move_stepper_motor_by_step num_steps direction s sched)"
    by (simp add: move_stepper_motor_by_step_def)
  from a have "direction \<noteq> 1" "direction \<noteq> - 1" by simp_all
  from stepper_loop_idle_trace(2) [OF this]
  show "PORTE (final (move_stepper_motor_by_step num_steps direction s sched)) = PORTE s"
    by (simp add: move_stepper_motor_by_step_def)
qed

text \<open>
  Unit 2; \<open>num_steps\<close> -1; \<open>num_steps\<close> 201, which runs 202 iterations of six events
  each; direction 5.
\<close>

theorem no_input_validation_witness:
  "timer2_start 2 power_on = power_on\<lparr>timer2_tick := 0, I_flag := True\<rparr>
   \<and> sint (- 1 :: u16) < 0
   \<and> move_stepper_motor_by_step (- 1) 1 power_on [(2, 0, 0)] = Returns power_on [(2, 0, 0)]
   \<and> 200 < sint (201 :: u16)
   \<and> (\<exists>s'. move_stepper_motor_by_step 201 1 power_on (replicate 202 (2, 0, 0)) = Returns s' []
         \<and> length (trace s') = 1212)
   \<and> \<not> returned (move_stepper_motor_by_step 0 5 power_on [(2, 0, 0), (2, 0, 0)])"
proof -
  have u: "(2 :: u8) \<noteq> 0 \<and> (2 :: u8) \<noteq> 1" by simp
  note start = no_input_validation [where unit = 2 and s = power_on,
      THEN conjunct1, THEN mp, OF u]
  have neg: "sint (- 1 :: u16) < 0" by simp
  note none = no_input_validation [where num_steps = "- 1" and direction = 1 and s = power_on
      and sched = "[(2, 0, 0)]", THEN conjunct2, THEN conjunct2, THEN conjunct1, THEN mp, OF neg]
  have big: "(sint (201 :: u16) = 0 \<or> 200 < sint (201 :: u16)) \<and> sint (201 :: u16) < 32767
        \<and> ((1 :: u16) = 1 \<or> (1 :: u16) = - 1)" by simp
  note no_input_validation [where num_steps = 201 and direction = 1 and s = power_on
      and rest = "[]", THEN conjunct2, THEN conjunct2, THEN conjunct2, THEN conjunct1,
      THEN mp, OF big]
  then obtain s' vss where run:
    "move_stepper_motor_by_step 201 1 power_on (replicate (nat (sint (201 :: u16)) + 1) (2, 0, 0) @ [])
       = Returns s' []"
    "length vss = nat (sint (201 :: u16)) + 1" "\<forall>vs\<in>set vss. length vs = 5"
    "trace s' = trace power_on @ concat (map iteration vss)"
    by blast
  have "length (concat (map iteration xss)) = 6 * length xss"
    if "\<forall>vs\<in>set xss. length vs = 5" for xss :: "u8 list list"
    using that by (induction xss) (simp_all add: iteration_def)
  from this [OF run(3)] run(2,4)
  have "length (trace s') = 1212"
    by (simp add: power_on_def program_start_def)
  moreover from run(1)
  have "move_stepper_motor_by_step 201 1 power_on (replicate 202 (2, 0, 0)) = Returns s' []"
    by simp
  ultimately have over: "\<exists>s'. move_stepper_motor_by_step 201 1 power_on (replicate 202 (2, 0, 0))
      = Returns s' [] \<and> length (trace s') = 1212"
    by blast
  have bad: "0 \<le> sint (0 :: u16) \<and> (5 :: u16) \<noteq> 1 \<and> (5 :: u16) \<noteq> - 1" by simp
  note no_input_validation [where num_steps = 0 and direction = 5 and s = power_on
      and sched = "[(2, 0, 0), (2, 0, 0)]", THEN conjunct2, THEN conjunct2, THEN conjunct2, THEN conjunct2,
      THEN mp, OF bad, THEN conjunct1]
  with start neg none over show ?thesis by simp
qed

text \<open>
  C1. The claim is that \<open>wait_ms(time_val)\<close> zeroes \<open>timer2_tick\<close>, starts timer 2 and
  does not return while \<open>timer2_tick < time_val\<close>, the handler being the only code that
  adds to \<open>timer2_tick\<close>. The code breaks the middle part: the loop condition loads
  \<open>timer2_tick\<close> one byte at a time with interrupts enabled. With \<open>time_val = 300\<close>,
  after 255 ticks the low byte is loaded as \<open>0xFF\<close>, the handler runs and makes the counter
  \<open>0x0100\<close>, the high byte is loaded as \<open>0x01\<close>, the loop compares \<open>0x01FF\<close> with 300
  and ends: \<open>wait_ms\<close> returns with \<open>timer2_tick = 256\<close>, 44 ticks early. (When no
  handler run falls between the two loads, the loop ends only on
  \<open>time_val \<le> timer2_tick\<close>: \<open>busy_wait_whole_reads_exit\<close>.)
\<close>

theorem wait_ms_torn_read_returns_early:
  "returned (wait_ms 300 power_on (replicate 255 (1, 0, 0) @ [(0, 1, 0)]))
   \<and> timer2_tick (final (wait_ms 300 power_on (replicate 255 (1, 0, 0) @ [(0, 1, 0)]))) = 256
   \<and> (256 :: u16) < 300"
  by code_simp

text \<open>
  C8. \<open>wait_ms\<close> sets \<open>OCR2 = 250\<close> and calls \<open>timer2_start(0)\<close>, which sets
  \<open>TCCR2 = 0b00001011\<close>, sets bit 7 of \<open>TIMSK\<close> and nothing else in it, and enables
  interrupts. While the loop runs this configuration stands. \<open>wait_ms\<close> does return:
  at its first evaluation of the condition when \<open>time_val\<close> ticks have come by then, and
  from any point of the wait once enough further ticks come. On return \<open>timer2_stop\<close> has
  run: it clears bit 7 of \<open>TIMSK\<close> and bit 7 of \<open>TCCR2\<close> and changes no other bit and no
  other register, so that \<open>TIMSK\<close> is back to its value on entry with bit 7 cleared,
  \<open>TCCR2\<close> is \<open>0b00001011\<close> and \<open>OCR2\<close> is 250.
\<close>

theorem wait_ms_timer_configuration:
  "OCR2 (wait_ms_entry time_val s) = 250
   \<and> wait_ms_entry time_val s = timer2_start 0 (s\<lparr>trace := trace s @ [Call_wait_ms time_val],
        OCR2 := 250, timer2_tick := 0\<rparr>)
   \<and> timer2_start 0 s = s\<lparr>timer2_tick := 0, TCCR2 := 0b00001011,
        TIMSK := TIMSK s OR 0b10000000, I_flag := True\<rparr>
   \<and> (\<forall>n. bit (TIMSK (timer2_start 0 s)) n \<longleftrightarrow> n = 7 \<or> bit (TIMSK s) n)
   \<and> timer2_stop s = s\<lparr>TIMSK := TIMSK s AND NOT 0b10000000, TCCR2 := TCCR2 s AND 0b01111111\<rparr>
   \<and> (\<forall>n. bit (TIMSK (timer2_stop s)) n \<longleftrightarrow> n \<noteq> 7 \<and> bit (TIMSK s) n)
   \<and> (\<forall>n. bit (TCCR2 (timer2_stop s)) n \<longleftrightarrow> n \<noteq> 7 \<and> bit (TCCR2 s) n)
   \<and> (\<exists>t. final (wait_ms time_val s sched) =
         (if returned (wait_ms time_val s sched)
          then timer2_stop ((wait_ms_entry time_val s)\<lparr>timer2_tick := t\<rparr>)
          else (wait_ms_entry time_val s)\<lparr>timer2_tick := t\<rparr>))
   \<and> wait_ms time_val s ((unat time_val, 0, 0) # rest) =
       Returns (s\<lparr>trace := trace s @ [Call_wait_ms time_val], OCR2 := 250,
                 timer2_tick := time_val, TCCR2 := 0b00001011,
                 TIMSK := TIMSK s AND 0b01111111, I_flag := True\<rparr>) rest
   \<and> (\<exists>k. returned (wait_ms time_val s (sched @ [(k, 0, 0)])))
   \<and> OCR2 (final (wait_ms time_val s sched)) = 250
   \<and> TCCR2 (final (wait_ms time_val s sched)) = 0b00001011
   \<and> TIMSK (final (wait_ms time_val s sched)) =
       (if returned (wait_ms time_val s sched) then TIMSK s AND 0b01111111
        else TIMSK s OR 0b10000000)"
proof -
  have start: "bit (TIMSK (timer2_start 0 s)) n \<longleftrightarrow> n = 7 \<or> bit (TIMSK s) n" for n
    by (simp add: timer2_start_def set_bit7_u8)
  have stop: "bit (TIMSK (timer2_stop s)) n \<longleftrightarrow> n \<noteq> 7 \<and> bit (TIMSK s) n"
    "bit (TCCR2 (timer2_stop s)) n \<longleftrightarrow> n \<noteq> 7 \<and> bit (TCCR2 s) n" for n
    by (auto simp: timer2_stop_bits)
  have "timer2_stop s = s\<lparr>TIMSK := TIMSK s AND NOT 0b10000000, TCCR2 := TCCR2 s AND 0b01111111\<rparr>"
    by (simp add: timer2_stop_def)
  moreover have "timer2_start 0 s = s\<lparr>timer2_tick := 0, TCCR2 := 0b00001011,
        TIMSK := TIMSK s OR 0b10000000, I_flag := True\<rparr>"
    by (simp add: timer2_start_def)
  moreover have "wait_ms_entry time_val s
      = timer2_start 0 (s\<lparr>trace := trace s @ [Call_wait_ms time_val],
        OCR2 := 250, timer2_tick := 0\<rparr>)"
    by (simp add: wait_ms_entry_def)
  moreover have "OCR2 (wait_ms_entry time_val s) = 250"
    by (simp add: wait_ms_entry_eq)
  moreover have "OCR2 (final (wait_ms time_val s sched)) = 250"
    "TCCR2 (final (wait_ms time_val s sched)) = 0b00001011"
    "TIMSK (final (wait_ms time_val s sched)) =
       (if returned (wait_ms time_val s sched) then TIMSK s AND 0b01111111
        else TIMSK s OR 0b10000000)"
    using wait_ms_final [of time_val s sched] set_then_clear_bit7_u8 [of "TIMSK s"]
    by (auto simp: wait_ms_entry_eq timer2_stop_def split: if_splits)
  moreover note wait_ms_enough_ticks [of time_val s rest] wait_ms_one_more [of time_val s sched]
  ultimately show ?thesis
    using start stop wait_ms_final [of time_val s sched] by blast
qed

text \<open>
  C10, as amended. \<open>wait_ms(0)\<close> returns at the first evaluation of the loop condition,
  whatever the number of interrupts served by then: \<open>timer2_tick < 0\<close> is false for every
  value of the counter. Timer 2 has been started and is stopped again. On return
  \<open>timer2_tick\<close> is the number of interrupts served between the start and the stop
  (modulo \<open>2 ^ 16\<close>): 0 when there was none.
\<close>

theorem wait_ms_zero_returns_at_once:
  "wait_ms 0 s ((a, b, c) # ps)
       = Returns (s\<lparr>trace := trace s @ [Call_wait_ms 0], OCR2 := 250,
                    timer2_tick := of_nat (a + b + c), TCCR2 := 0b00001011,
                    TIMSK := TIMSK s AND 0b01111111, I_flag := True\<rparr>) ps
   \<and> wait_ms 0 s ((0, 0, 0) # ps)
       = Returns (s\<lparr>trace := trace s @ [Call_wait_ms 0], OCR2 := 250, timer2_tick := 0,
                    TCCR2 := 0b00001011, TIMSK := TIMSK s AND 0b01111111, I_flag := True\<rparr>) ps"
proof -
  have "wait_ms 0 s ((a, b, c) # ps)
       = Returns (s\<lparr>trace := trace s @ [Call_wait_ms 0], OCR2 := 250,
                    timer2_tick := of_nat (a + b + c), TCCR2 := 0b00001011,
                    TIMSK := (TIMSK s OR 0b10000000) AND NOT 0b10000000, I_flag := True\<rparr>) ps"
    for a b c
    by (simp add: wait_ms_def wait_ms_entry_eq busy_wait_Cons timer2_stop_def)
  from this [of a b c] this [of 0 0 0] show ?thesis
    by (simp only: set_then_clear_bit7_u8) simp
qed

text \<open>
  C10 as stated fails when an interrupt is served between \<open>sei()\<close> and the first
  evaluation of the condition: \<open>wait_ms(0)\<close> returns with \<open>timer2_tick = 1\<close>.
\<close>

theorem wait_ms_zero_tick_counterexample:
  "returned (wait_ms 0 power_on [(1, 0, 0)])
   \<and> timer2_tick (final (wait_ms 0 power_on [(1, 0, 0)])) = 1"
  by code_simp

end
